theory Spec2Isabelle
  imports Main "HOL-Library.AList"
begin

section \<open>Data model\<close>

text \<open>
  A pointer \<^verbatim>\<open>*lruCacheEntry\<close> is \<open>None\<close> (nil) or \<open>Some a\<close>, the address of a cell
  of the store. The store is the list of all entries allocated so far; an address is an
  index into it. The two sentinels \<^verbatim>\<open>c.head\<close> and \<^verbatim>\<open>c.tail\<close>, which the source embeds in
  the cache struct and uses through \<^verbatim>\<open>&c.head\<close> and \<^verbatim>\<open>&c.tail\<close>, are the cells 0 and 1.
  An entry that is unlinked stays in the store (the source leaves it to the garbage
  collector); a new entry is appended, so its address is fresh.
\<close>

type_synonym ptr = "nat option"

text \<open>
  \<^verbatim>\<open>time.Time\<close> is a number of clock ticks since the zero instant, so that
  \<^verbatim>\<open>IsZero\<close> is equality with 0. Every reading of \<^verbatim>\<open>time.Now()\<close> is an argument of the
  operation that reads it.
\<close>

record lruCacheEntry =
  key :: string
  val :: string
  expiry :: nat
  lruPrev :: ptr
  lruNext :: ptr
  expPrev :: ptr
  expNext :: ptr

text \<open>
  The map \<^verbatim>\<open>m\<close> is an association list that \<open>AList.update\<close> and \<open>AList.delete\<close> keep
  free of duplicate keys. \<^verbatim>\<open>maxSize\<close> and \<^verbatim>\<open>ttl\<close> are Go integers; the source only compares
  them, so they are unbounded here.
\<close>

record lruCache =
  maxSize :: int
  ttl :: int
  mem :: "lruCacheEntry list"
  m :: "(string \<times> ptr) list"

abbreviation head :: nat where "head \<equiv> 0"
abbreviation tail :: nat where "tail \<equiv> Suc 0"

text \<open>The panics of the source, and the run-time panic of a nil dereference.\<close>

datatype error = InvalidMaxSize | InvalidTTL | CannotDelist | NilDereference

definition bindE :: "error + 'a \<Rightarrow> ('a \<Rightarrow> error + 'b) \<Rightarrow> error + 'b" where
  "bindE x f = (case x of Inl e \<Rightarrow> Inl e | Inr v \<Rightarrow> f v)"

text \<open>Reading \<^verbatim>\<open>*p\<close> and writing a field of \<^verbatim>\<open>*p\<close>.\<close>

definition deref :: "lruCacheEntry list \<Rightarrow> ptr \<Rightarrow> error + lruCacheEntry" where
  "deref h p = (case p of None \<Rightarrow> Inl NilDereference
     | Some a \<Rightarrow> if a < length h then Inr (h ! a) else Inl NilDereference)"

definition store :: "lruCacheEntry list \<Rightarrow> ptr \<Rightarrow> (lruCacheEntry \<Rightarrow> lruCacheEntry)
    \<Rightarrow> error + lruCacheEntry list" where
  "store h p f = (case p of None \<Rightarrow> Inl NilDereference
     | Some a \<Rightarrow> if a < length h then Inr (h[a := f (h ! a)]) else Inl NilDereference)"

section \<open>Operations\<close>

definition zeroEntry :: lruCacheEntry where
  "zeroEntry = \<lparr>key = [], val = [], expiry = 0, lruPrev = None, lruNext = None,
     expPrev = None, expNext = None\<rparr>"

text \<open>\<^verbatim>\<open>New\<close>. The initial capacity of the Go map is a hint only and is left out.\<close>

definition New :: "int \<Rightarrow> int \<Rightarrow> error + lruCache" where
  "New maxSize0 ttl0 =
     (if maxSize0 < 0 then Inl InvalidMaxSize
      else if ttl0 < 0 then Inl InvalidTTL
      else Inr \<lparr>maxSize = maxSize0, ttl = ttl0,
        mem = [zeroEntry\<lparr>lruNext := Some tail, expNext := Some tail\<rparr>,
               zeroEntry\<lparr>lruPrev := Some head, expPrev := Some head\<rparr>],
        m = []\<rparr>)"

text \<open>\<^verbatim>\<open>IsExpired\<close>, with the reading \<open>now\<close> of the clock.\<close>

definition IsExpired :: "lruCacheEntry list \<Rightarrow> ptr \<Rightarrow> nat \<Rightarrow> error + bool" where
  "IsExpired h e now =
     bindE (deref h e) (\<lambda>x. Inr (if expiry x = 0 then False else expiry x < now))"

definition Len :: "lruCache \<Rightarrow> int" where
  "Len c = int (length (m c))"

text \<open>\<^verbatim>\<open>delist\<close>: four assignments, each reading the store as the one before left it.\<close>

definition delist :: "lruCache \<Rightarrow> ptr \<Rightarrow> error + lruCache" where
  "delist c e =
     (if e = None \<or> e = Some head \<or> e = Some tail then Inl CannotDelist
      else
        bindE (deref (mem c) e) (\<lambda>x.
        bindE (store (mem c) (lruPrev x) (\<lambda>y. y\<lparr>lruNext := lruNext x\<rparr>)) (\<lambda>h1.
        bindE (deref h1 e) (\<lambda>x.
        bindE (store h1 (lruNext x) (\<lambda>y. y\<lparr>lruPrev := lruPrev x\<rparr>)) (\<lambda>h2.
        bindE (deref h2 e) (\<lambda>x.
        bindE (store h2 (expPrev x) (\<lambda>y. y\<lparr>expNext := expNext x\<rparr>)) (\<lambda>h3.
        bindE (deref h3 e) (\<lambda>x.
        bindE (store h3 (expNext x) (\<lambda>y. y\<lparr>expPrev := expPrev x\<rparr>)) (\<lambda>h4.
        Inr (c\<lparr>mem := h4\<rparr>))))))))))"

definition delete :: "lruCache \<Rightarrow> ptr \<Rightarrow> error + lruCache" where
  "delete c e =
     bindE (delist c e) (\<lambda>c1.
     bindE (deref (mem c1) e) (\<lambda>x.
     Inr (c1\<lparr>m := AList.delete (key x) (m c1)\<rparr>)))"

definition trim :: "lruCache \<Rightarrow> nat \<Rightarrow> error + lruCache" where
  "trim c now =
     (if maxSize c \<le> 0 \<or> Len c \<le> maxSize c then Inr c
      else
        bindE (deref (mem c) (Some tail)) (\<lambda>t.
        bindE (IsExpired (mem c) (expPrev t) now) (\<lambda>expired.
        if expired then delete c (expPrev t) else delete c (lruPrev t))))"

text \<open>
  \<^verbatim>\<open>Put\<close>. \<open>now\<close> is the reading of the clock that stamps the new entry, \<open>now'\<close> the one
  that \<^verbatim>\<open>trim\<close> takes afterwards.
\<close>

definition Put :: "lruCache \<Rightarrow> nat \<Rightarrow> nat \<Rightarrow> string \<Rightarrow> string \<Rightarrow> error + lruCache" where
  "Put c now now' k v =
     bindE (case map_of (m c) k of Some e \<Rightarrow> delete c e | None \<Rightarrow> Inr c) (\<lambda>c1.
     bindE (deref (mem c1) (Some head)) (\<lambda>hd0.
     let e = Some (length (mem c1));
         c2 = c1\<lparr>mem := mem c1 @
                [\<lparr>key = k, val = v,
                  expiry = (if ttl c1 > 0 then now + nat (ttl c1) else 0),
                  lruPrev = Some head, lruNext = lruNext hd0,
                  expPrev = Some head, expNext = expNext hd0\<rparr>],
                m := AList.update k e (m c1)\<rparr>
     in
     bindE (deref (mem c2) (Some head)) (\<lambda>x.
     bindE (store (mem c2) (lruNext x) (\<lambda>y. y\<lparr>lruPrev := e\<rparr>)) (\<lambda>h1.
     bindE (store h1 (Some head) (\<lambda>y. y\<lparr>lruNext := e\<rparr>)) (\<lambda>h2.
     bindE (deref h2 (Some head)) (\<lambda>x.
     bindE (store h2 (expNext x) (\<lambda>y. y\<lparr>expPrev := e\<rparr>)) (\<lambda>h3.
     bindE (store h3 (Some head) (\<lambda>y. y\<lparr>expNext := e\<rparr>)) (\<lambda>h4.
     trim (c2\<lparr>mem := h4\<rparr>) now'))))))))"

definition Get :: "lruCache \<Rightarrow> nat \<Rightarrow> string \<Rightarrow> error + (lruCache \<times> string \<times> bool)" where
  "Get c now k =
     (case map_of (m c) k of
        None \<Rightarrow> Inr (c, [], False)
      | Some e \<Rightarrow>
          bindE (IsExpired (mem c) e now) (\<lambda>expired.
          if expired then bindE (delete c e) (\<lambda>c1. Inr (c1, [], False))
          else
            bindE (deref (mem c) e) (\<lambda>x0.
            bindE (store (mem c) (lruPrev x0) (\<lambda>y. y\<lparr>lruNext := lruNext x0\<rparr>)) (\<lambda>h1.
            bindE (deref h1 e) (\<lambda>x.
            bindE (store h1 (lruNext x) (\<lambda>y. y\<lparr>lruPrev := lruPrev x\<rparr>)) (\<lambda>h2.
            bindE (store h2 e (\<lambda>y. y\<lparr>lruPrev := Some head\<rparr>)) (\<lambda>h3.
            bindE (deref h3 (Some head)) (\<lambda>x.
            bindE (store h3 e (\<lambda>y. y\<lparr>lruNext := lruNext x\<rparr>)) (\<lambda>h4.
            bindE (deref h4 (Some head)) (\<lambda>x.
            bindE (store h4 (lruNext x) (\<lambda>y. y\<lparr>lruPrev := e\<rparr>)) (\<lambda>h5.
            bindE (store h5 (Some head) (\<lambda>y. y\<lparr>lruNext := e\<rparr>)) (\<lambda>h6.
            Inr (c\<lparr>mem := h6\<rparr>, val x0, True)))))))))))))"

definition Delete :: "lruCache \<Rightarrow> string \<Rightarrow> error + (lruCache \<times> bool)" where
  "Delete c k =
     (case map_of (m c) k of
        None \<Rightarrow> Inr (c, False)
      | Some e \<Rightarrow> bindE (delete c e) (\<lambda>c1. Inr (c1, True)))"

section \<open>Sequences of calls\<close>

datatype call =
    CallPut nat nat string string
  | CallGet nat string
  | CallDelete string
  | CallLen

datatype reply =
    PutDone
  | GetReply string bool
  | DeleteReply bool
  | LenReply int

fun exec :: "lruCache \<Rightarrow> call \<Rightarrow> error + (lruCache \<times> reply)" where
  "exec c (CallPut now now' k v) = bindE (Put c now now' k v) (\<lambda>c1. Inr (c1, PutDone))"
| "exec c (CallGet now k) = bindE (Get c now k) (\<lambda>(c1, v, ok). Inr (c1, GetReply v ok))"
| "exec c (CallDelete k) = bindE (Delete c k) (\<lambda>(c1, ok). Inr (c1, DeleteReply ok))"
| "exec c CallLen = Inr (c, LenReply (Len c))"

fun run :: "lruCache \<Rightarrow> call list \<Rightarrow> error + (lruCache \<times> reply list)" where
  "run c [] = Inr (c, [])"
| "run c (x # xs) =
     bindE (exec c x) (\<lambda>(c1, r). bindE (run c1 xs) (\<lambda>(c2, rs). Inr (c2, r # rs)))"

section \<open>Walking the lists\<close>

text \<open>
  Following one of the two \<open>next\<close> fields from a pointer up to \<^verbatim>\<open>&c.tail\<close>, with the
  number of cells as the bound on the steps: the addresses met on the way, or \<open>None\<close>
  when the walk meets nil or does not reach the tail sentinel.
\<close>

fun walk :: "(lruCacheEntry \<Rightarrow> ptr) \<Rightarrow> lruCacheEntry list \<Rightarrow> nat \<Rightarrow> ptr \<Rightarrow> nat list option" where
  "walk nxt h 0 p = None"
| "walk nxt h (Suc n) p =
     (case p of None \<Rightarrow> None
      | Some a \<Rightarrow>
          if a = tail then Some []
          else if a < length h then map_option ((#) a) (walk nxt h n (nxt (h ! a)))
          else None)"

definition lruList :: "lruCache \<Rightarrow> nat list option" where
  "lruList c = (if mem c = [] then None
     else walk lruNext (mem c) (length (mem c)) (lruNext (mem c ! head)))"

definition expList :: "lruCache \<Rightarrow> nat list option" where
  "expList c = (if mem c = [] then None
     else walk expNext (mem c) (length (mem c)) (expNext (mem c ! head)))"

section \<open>The two halves of Put and Get\<close>

text \<open>
  \<open>link_front\<close> is the part of \<^verbatim>\<open>Put\<close> between the removal of an old entry and the call
  of \<^verbatim>\<open>trim\<close>: the allocation of the new entry and the five assignments that enter it in
  the map and at the head of both lists. \<open>promote\<close> is the six assignments at the end of
  \<^verbatim>\<open>Get\<close>. Both are copies of the text of \<open>Put\<close> and \<open>Get\<close> above; the lemmas
  \<open>Put_parts\<close> and \<open>Get_parts\<close> below show that the operations are composed of them.
\<close>

definition link_front :: "lruCache \<Rightarrow> nat \<Rightarrow> string \<Rightarrow> string \<Rightarrow> error + lruCache" where
  "link_front c1 now k v =
     bindE (deref (mem c1) (Some head)) (\<lambda>hd0.
     let e = Some (length (mem c1));
         c2 = c1\<lparr>mem := mem c1 @
                [\<lparr>key = k, val = v,
                  expiry = (if ttl c1 > 0 then now + nat (ttl c1) else 0),
                  lruPrev = Some head, lruNext = lruNext hd0,
                  expPrev = Some head, expNext = expNext hd0\<rparr>],
                m := AList.update k e (m c1)\<rparr>
     in
     bindE (deref (mem c2) (Some head)) (\<lambda>x.
     bindE (store (mem c2) (lruNext x) (\<lambda>y. y\<lparr>lruPrev := e\<rparr>)) (\<lambda>h1.
     bindE (store h1 (Some head) (\<lambda>y. y\<lparr>lruNext := e\<rparr>)) (\<lambda>h2.
     bindE (deref h2 (Some head)) (\<lambda>x.
     bindE (store h2 (expNext x) (\<lambda>y. y\<lparr>expPrev := e\<rparr>)) (\<lambda>h3.
     bindE (store h3 (Some head) (\<lambda>y. y\<lparr>expNext := e\<rparr>)) (\<lambda>h4.
     Inr (c2\<lparr>mem := h4\<rparr>))))))))"

definition promote :: "lruCache \<Rightarrow> ptr \<Rightarrow> error + lruCache" where
  "promote c e =
     bindE (deref (mem c) e) (\<lambda>x0.
     bindE (store (mem c) (lruPrev x0) (\<lambda>y. y\<lparr>lruNext := lruNext x0\<rparr>)) (\<lambda>h1.
     bindE (deref h1 e) (\<lambda>x.
     bindE (store h1 (lruNext x) (\<lambda>y. y\<lparr>lruPrev := lruPrev x\<rparr>)) (\<lambda>h2.
     bindE (store h2 e (\<lambda>y. y\<lparr>lruPrev := Some head\<rparr>)) (\<lambda>h3.
     bindE (deref h3 (Some head)) (\<lambda>x.
     bindE (store h3 e (\<lambda>y. y\<lparr>lruNext := lruNext x\<rparr>)) (\<lambda>h4.
     bindE (deref h4 (Some head)) (\<lambda>x.
     bindE (store h4 (lruNext x) (\<lambda>y. y\<lparr>lruPrev := e\<rparr>)) (\<lambda>h5.
     bindE (store h5 (Some head) (\<lambda>y. y\<lparr>lruNext := e\<rparr>)) (\<lambda>h6.
     Inr (c\<lparr>mem := h6\<rparr>)))))))))))"

text \<open>A cache made by \<^verbatim>\<open>New\<close> and then used through its four public operations.\<close>

definition session :: "int \<Rightarrow> int \<Rightarrow> call list \<Rightarrow> error + (lruCache \<times> reply list)" where
  "session maxSize0 ttl0 calls = bindE (New maxSize0 ttl0) (\<lambda>c0. run c0 calls)"

section \<open>The representation invariant\<close>

text \<open>
  One field of every cell, as a partial function of the address. An assignment to a
  field changes one such function at one address and leaves the others alone.
\<close>

definition fld :: "(lruCacheEntry \<Rightarrow> 'a) \<Rightarrow> lruCacheEntry list \<Rightarrow> nat \<Rightarrow> 'a option" where
  "fld f h a = (if a < length h then Some (f (h ! a)) else None)"

text \<open>
  \<open>chain N P xs\<close>: along the addresses \<open>xs\<close> each cell's \<open>next\<close> is its successor and
  each cell's \<open>prev\<close> is its predecessor.
\<close>

fun chain :: "(nat \<Rightarrow> ptr option) \<Rightarrow> (nat \<Rightarrow> ptr option) \<Rightarrow> nat list \<Rightarrow> bool" where
  "chain N P (a # b # xs) = (N a = Some (Some b) \<and> P b = Some (Some a) \<and> chain N P (b # xs))"
| "chain N P [a] = True"
| "chain N P [] = True"

text \<open>
  \<open>lists_ok h L E\<close>: the recency list is \<open>head, L, tail\<close> and the age list is
  \<open>head, E, tail\<close>, both doubly linked, over the same entries, none of them twice.
\<close>

definition lists_ok :: "lruCacheEntry list \<Rightarrow> nat list \<Rightarrow> nat list \<Rightarrow> bool" where
  "lists_ok h L E \<longleftrightarrow>
     distinct L \<and> distinct E \<and> set E = set L \<and> head \<notin> set L \<and> tail \<notin> set L
     \<and> chain (fld lruNext h) (fld lruPrev h) (head # L @ [tail])
     \<and> chain (fld expNext h) (fld expPrev h) (head # E @ [tail])"

text \<open>\<open>index_ok c L\<close>: the map holds exactly the listed entries, each under its own key.\<close>

definition index_ok :: "lruCache \<Rightarrow> nat list \<Rightarrow> bool" where
  "index_ok c L \<longleftrightarrow>
     distinct (map fst (m c))
     \<and> (\<forall>k p. map_of (m c) k = Some p \<longleftrightarrow> (\<exists>a\<in>set L. p = Some a \<and> fld key (mem c) a = Some k))"

definition well_formed :: "lruCache \<Rightarrow> nat list \<Rightarrow> nat list \<Rightarrow> bool" where
  "well_formed c L E \<longleftrightarrow> lists_ok (mem c) L E \<and> index_ok c L"

definition same_data :: "lruCacheEntry list \<Rightarrow> lruCacheEntry list \<Rightarrow> bool" where
  "same_data h h' \<longleftrightarrow> length h' = length h \<and> fld key h' = fld key h
     \<and> fld val h' = fld val h \<and> fld expiry h' = fld expiry h"

text \<open>What \<^verbatim>\<open>IsExpired\<close> returns for the entry at address \<open>a\<close>.\<close>

definition expired_at :: "lruCacheEntry list \<Rightarrow> nat \<Rightarrow> nat \<Rightarrow> bool" where
  "expired_at h a now \<longleftrightarrow> expiry (h ! a) \<noteq> 0 \<and> expiry (h ! a) < now"

text \<open>The entry that \<^verbatim>\<open>trim\<close> removes when the lists are \<open>L\<close> and \<open>E\<close>.\<close>

definition victim :: "lruCacheEntry list \<Rightarrow> nat list \<Rightarrow> nat list \<Rightarrow> nat \<Rightarrow> nat" where
  "victim h L E now = (if expired_at h (last E) now then last E else last L)"

text \<open>A list once \<^verbatim>\<open>Put\<close> has removed the entry that the map held for its key.\<close>

definition unlinked :: "ptr option \<Rightarrow> nat list \<Rightarrow> nat list" where
  "unlinked old L = (case old of Some (Some b) \<Rightarrow> remove1 b L | _ \<Rightarrow> L)"

text \<open>The guard of \<^verbatim>\<open>trim\<close>, for a cache of \<open>n\<close> entries.\<close>

definition evicts :: "lruCache \<Rightarrow> nat \<Rightarrow> bool" where
  "evicts c n \<longleftrightarrow> 0 < maxSize c \<and> maxSize c < int n"

text \<open>
  The invariant of the cache between two public operations: the structure above, the
  bound on the number of entries, and an expiry that is set exactly when the cache has
  a ttl.
\<close>

definition cache_inv :: "lruCache \<Rightarrow> nat list \<Rightarrow> nat list \<Rightarrow> bool" where
  "cache_inv c L E \<longleftrightarrow>
     well_formed c L E \<and> 0 \<le> maxSize c \<and> 0 \<le> ttl c
     \<and> (0 < maxSize c \<longrightarrow> int (length L) \<le> maxSize c)
     \<and> (\<forall>a\<in>set L. (0 < expiry (mem c ! a)) = (0 < ttl c))"


text \<open>
  \<open>stamped_by T x\<close>: if the call \<open>x\<close> is a \<^verbatim>\<open>Put\<close>, the clock reading that stamps its entry
  (its time of insertion) is \<open>T\<close> or earlier.
\<close>

fun stamped_by :: "nat \<Rightarrow> call \<Rightarrow> bool" where
  "stamped_by T (CallPut now now' k v) = (now \<le> T)"
| "stamped_by T (CallGet now k) = True"
| "stamped_by T (CallDelete k) = True"
| "stamped_by T CallLen = True"

text \<open>The keys of the entries of the recency list, most recently used first.\<close>

definition lruKeys :: "lruCache \<Rightarrow> string list option" where
  "lruKeys c = map_option (map (\<lambda>a. key (mem c ! a))) (lruList c)"

section \<open>Field views and chains\<close>

lemma bindE_Inr [simp]: "bindE (Inr v) f = f v"
  by (simp add: bindE_def)

lemma bindE_Inl [simp]: "bindE (Inl e) f = Inl e"
  by (simp add: bindE_def)

lemma bindE_eq_Inr: "bindE x f = Inr y \<longleftrightarrow> (\<exists>v. x = Inr v \<and> f v = Inr y)"
  by (cases x) simp_all

lemma fld_Some: "fld f h a = Some v \<longleftrightarrow> a < length h \<and> f (h ! a) = v"
  by (auto simp: fld_def)

lemma fld_lt: "fld f h a = Some v \<Longrightarrow> a < length h"
  by (simp add: fld_Some)

lemma deref_Some: "a < length h \<Longrightarrow> deref h (Some a) = Inr (h ! a)"
  by (simp add: deref_def)

lemma store_Some: "a < length h \<Longrightarrow> store h (Some a) f = Inr (h[a := f (h ! a)])"
  by (simp add: store_def)

lemma fld_upd_other:
  "(\<And>e. f (g e) = f e) \<Longrightarrow> fld f (h[a := g (h ! a)]) = fld f h"
proof (rule ext)
  fix x
  assume "\<And>e. f (g e) = f e"
  then show "fld f (h[a := g (h ! a)]) x = fld f h x"
    by (cases "x = a") (simp_all add: fld_def)
qed

lemma fld_upd_same:
  "a < length h \<Longrightarrow> fld f (h[a := g (h ! a)]) = (fld f h)(a \<mapsto> f (g (h ! a)))"
  by (rule ext) (simp add: fld_def nth_list_update)

lemma fld_append:
  "fld f (h @ [e]) = (fld f h)(length h \<mapsto> f e)"
  by (rule ext) (auto simp: fld_def nth_append)

lemma chain_append:
  "chain N P (xs @ y # ys) \<longleftrightarrow> chain N P (xs @ [y]) \<and> chain N P (y # ys)"
proof (induction N P xs rule: chain.induct)
  case (1 N P a b xs)
  then show ?case by simp
next
  case (2 N P a)
  then show ?case by (cases ys) auto
next
  case (3 N P)
  then show ?case by simp
qed

lemma chain_frame:
  "\<forall>x\<in>set (butlast xs). N' x = N x \<Longrightarrow> \<forall>x\<in>set (tl xs). P' x = P x
    \<Longrightarrow> chain N' P' xs = chain N P xs"
  by (induction N P xs rule: chain.induct) auto

lemma chain_unlink:
  assumes d: "distinct (xs @ p # a # n # ys)"
    and c: "chain N P (xs @ p # a # n # ys)"
  shows "chain (N(p \<mapsto> Some n)) (P(n \<mapsto> Some p)) (xs @ p # n # ys)"
proof -
  from c have c1: "chain N P (xs @ [p])" and c2: "chain N P (n # ys)"
    using chain_append[of N P xs p "a # n # ys"] chain_append[of N P "[p, a]" n ys]
     chain_append[of N P "[p]" a "n # ys"]
    by auto
  have "chain (N(p \<mapsto> Some n)) (P(n \<mapsto> Some p)) (xs @ [p]) = chain N P (xs @ [p])"
    using d by (intro chain_frame) (auto dest: list.set_sel(2)[rotated])
  moreover have "chain (N(p \<mapsto> Some n)) (P(n \<mapsto> Some p)) (n # ys) = chain N P (n # ys)"
    using d by (intro chain_frame) (auto dest: in_set_butlastD)
  ultimately show ?thesis
    using c1 c2 chain_append[of "N(p \<mapsto> Some n)" "P(n \<mapsto> Some p)" xs p "n # ys"]
    by simp
qed

lemma chain_mid:
  "chain N P (xs @ p # a # n # ys) \<Longrightarrow>
     N p = Some (Some a) \<and> P a = Some (Some p) \<and> N a = Some (Some n) \<and> P n = Some (Some a)"
  using chain_append[of N P xs p "a # n # ys"] by simp

lemma chain_push:
  assumes d: "a \<notin> set (x # n # ys)" "distinct (x # n # ys)"
    and c: "chain N P (x # n # ys)"
  shows "chain (N(a \<mapsto> Some n, x \<mapsto> Some a)) (P(a \<mapsto> Some x, n \<mapsto> Some a)) (x # a # n # ys)"
proof -
  have "chain (N(a \<mapsto> Some n, x \<mapsto> Some a)) (P(a \<mapsto> Some x, n \<mapsto> Some a)) (n # ys)
      = chain N P (n # ys)"
    using d by (intro chain_frame) (auto dest: in_set_butlastD)
  with c d show ?thesis by auto
qed

lemma interior_split:
  assumes "a \<in> set L"
  shows "\<exists>xs p n ys. x # L @ [z] = xs @ p # a # n # ys"
proof -
  from assms obtain L1 L2 where L: "L = L1 @ a # L2"
    by (auto simp: in_set_conv_decomp)
  have 1: "\<exists>xs p. x # L1 = xs @ [p]"
    by (metis append_butlast_last_id list.distinct(1))
  have 2: "\<exists>n ys. L2 @ [z] = n # ys"
    by (cases L2) auto
  from 1 2 L show ?thesis
    by (metis append.assoc append_Cons append_Nil)
qed

lemma remove1_interior:
  assumes "distinct (x # L @ [z])" "x # L @ [z] = xs @ p # a # n # ys"
  shows "x # remove1 a L @ [z] = xs @ p # n # ys"
proof -
  have d: "distinct (xs @ p # a # n # ys)"
    using assms by metis
  have ax: "a \<noteq> x"
    using d assms(2) by (cases xs) auto
  have az: "a \<noteq> z"
    using d assms(2) by (metis append_Cons append_assoc distinct.simps(2) distinct_append last_snoc last_appendR last_in_set list.discI last.simps)
  have "a \<in> set (x # L @ [z])"
    using assms(2) by simp
  with ax az have aL: "a \<in> set L" by simp
  have "remove1 a (x # L @ [z]) = x # remove1 a L @ [z]"
    using ax aL by (simp add: remove1_append)
  moreover have "remove1 a (xs @ p # a # n # ys) = xs @ p # n # ys"
    using d by (simp add: remove1_append)
  ultimately show ?thesis using assms by simp
qed

lemma fld_set_lruNext:
  "a < length h \<Longrightarrow> fld lruNext (h[a := (h ! a)\<lparr>lruNext := v\<rparr>]) = (fld lruNext h)(a \<mapsto> v)"
  "(\<And>e. f (e\<lparr>lruNext := v\<rparr>) = f e) \<Longrightarrow> fld f (h[a := (h ! a)\<lparr>lruNext := v\<rparr>]) = fld f h"
  using fld_upd_same[of a h lruNext "\<lambda>y. y\<lparr>lruNext := v\<rparr>"]
    fld_upd_other[of f "\<lambda>y. y\<lparr>lruNext := v\<rparr>" h a] by simp_all

lemma fld_set_lruPrev:
  "a < length h \<Longrightarrow> fld lruPrev (h[a := (h ! a)\<lparr>lruPrev := v\<rparr>]) = (fld lruPrev h)(a \<mapsto> v)"
  "(\<And>e. f (e\<lparr>lruPrev := v\<rparr>) = f e) \<Longrightarrow> fld f (h[a := (h ! a)\<lparr>lruPrev := v\<rparr>]) = fld f h"
  using fld_upd_same[of a h lruPrev "\<lambda>y. y\<lparr>lruPrev := v\<rparr>"]
    fld_upd_other[of f "\<lambda>y. y\<lparr>lruPrev := v\<rparr>" h a] by simp_all

lemma fld_set_expNext:
  "a < length h \<Longrightarrow> fld expNext (h[a := (h ! a)\<lparr>expNext := v\<rparr>]) = (fld expNext h)(a \<mapsto> v)"
  "(\<And>e. f (e\<lparr>expNext := v\<rparr>) = f e) \<Longrightarrow> fld f (h[a := (h ! a)\<lparr>expNext := v\<rparr>]) = fld f h"
  using fld_upd_same[of a h expNext "\<lambda>y. y\<lparr>expNext := v\<rparr>"]
    fld_upd_other[of f "\<lambda>y. y\<lparr>expNext := v\<rparr>" h a] by simp_all

lemma fld_set_expPrev:
  "a < length h \<Longrightarrow> fld expPrev (h[a := (h ! a)\<lparr>expPrev := v\<rparr>]) = (fld expPrev h)(a \<mapsto> v)"
  "(\<And>e. f (e\<lparr>expPrev := v\<rparr>) = f e) \<Longrightarrow> fld f (h[a := (h ! a)\<lparr>expPrev := v\<rparr>]) = fld f h"
  using fld_upd_same[of a h expPrev "\<lambda>y. y\<lparr>expPrev := v\<rparr>"]
    fld_upd_other[of f "\<lambda>y. y\<lparr>expPrev := v\<rparr>" h a] by simp_all

lemmas fld_set = fld_set_lruNext fld_set_lruPrev fld_set_expNext fld_set_expPrev

lemma fld_nth: "fld f h a = Some v \<Longrightarrow> f (h ! a) = v"
  by (simp add: fld_Some)

lemma delist_views:
  assumes a: "a \<noteq> head" "a \<noteq> tail"
    and lp: "fld lruPrev (mem c) a = Some (Some p)"
    and ln: "fld lruNext (mem c) a = Some (Some n)"
    and ep: "fld expPrev (mem c) a = Some (Some p')"
    and en: "fld expNext (mem c) a = Some (Some n')"
    and lt: "p < length (mem c)" "n < length (mem c)" "p' < length (mem c)" "n' < length (mem c)"
  shows "\<exists>h'. delist c (Some a) = Inr (c\<lparr>mem := h'\<rparr>) \<and> length h' = length (mem c)
     \<and> fld lruNext h' = (fld lruNext (mem c))(p \<mapsto> Some n)
     \<and> fld lruPrev h' = (fld lruPrev (mem c))(n \<mapsto> Some p)
     \<and> fld expNext h' = (fld expNext (mem c))(p' \<mapsto> Some n')
     \<and> fld expPrev h' = (fld expPrev (mem c))(n' \<mapsto> Some p')
     \<and> fld key h' = fld key (mem c) \<and> fld val h' = fld val (mem c)
     \<and> fld expiry h' = fld expiry (mem c)"
proof -
  define h0 where "h0 = mem c"
  define h1 where "h1 = h0[p := (h0 ! p)\<lparr>lruNext := Some n\<rparr>]"
  define h2 where "h2 = h1[n := (h1 ! n)\<lparr>lruPrev := Some p\<rparr>]"
  define h3 where "h3 = h2[p' := (h2 ! p')\<lparr>expNext := Some n'\<rparr>]"
  define h4 where "h4 = h3[n' := (h3 ! n')\<lparr>expPrev := Some p'\<rparr>]"
  have al: "a < length h0"
    using lp by (simp add: fld_Some h0_def)
  have len: "length h1 = length h0" "length h2 = length h0" "length h3 = length h0"
    "length h4 = length h0"
    by (simp_all add: h1_def h2_def h3_def h4_def)
  have lt0: "p < length h0" "n < length h0" "p' < length h0" "n' < length h0"
    using lt by (simp_all add: h0_def)
  have v1: "fld lruNext h1 = (fld lruNext h0)(p \<mapsto> Some n)" "fld lruPrev h1 = fld lruPrev h0"
    "fld expNext h1 = fld expNext h0" "fld expPrev h1 = fld expPrev h0"
    "fld key h1 = fld key h0" "fld val h1 = fld val h0" "fld expiry h1 = fld expiry h0"
    using lt0 by (simp_all add: h1_def fld_set)
  have v2: "fld lruNext h2 = fld lruNext h1" "fld lruPrev h2 = (fld lruPrev h1)(n \<mapsto> Some p)"
    "fld expNext h2 = fld expNext h1" "fld expPrev h2 = fld expPrev h1"
    "fld key h2 = fld key h1" "fld val h2 = fld val h1" "fld expiry h2 = fld expiry h1"
    using lt0 len by (simp_all add: h2_def fld_set)
  have v3: "fld lruNext h3 = fld lruNext h2" "fld lruPrev h3 = fld lruPrev h2"
    "fld expNext h3 = (fld expNext h2)(p' \<mapsto> Some n')" "fld expPrev h3 = fld expPrev h2"
    "fld key h3 = fld key h2" "fld val h3 = fld val h2" "fld expiry h3 = fld expiry h2"
    using lt0 len by (simp_all add: h3_def fld_set)
  have v4: "fld lruNext h4 = fld lruNext h3" "fld lruPrev h4 = fld lruPrev h3"
    "fld expNext h4 = fld expNext h3" "fld expPrev h4 = (fld expPrev h3)(n' \<mapsto> Some p')"
    "fld key h4 = fld key h3" "fld val h4 = fld val h3" "fld expiry h4 = fld expiry h3"
    using lt0 len by (simp_all add: h4_def fld_set)
  have r0: "lruPrev (h0 ! a) = Some p" "lruNext (h0 ! a) = Some n"
    using lp ln by (simp_all add: fld_Some h0_def)
  have "fld lruNext h1 a = Some (Some n)" "fld lruPrev h1 a = Some (Some p)"
    using ln lp by (simp_all add: v1 h0_def[symmetric])
  then have r1: "lruNext (h1 ! a) = Some n" "lruPrev (h1 ! a) = Some p"
    by (simp_all add: fld_Some)
  have "fld expNext h2 a = Some (Some n')" "fld expPrev h2 a = Some (Some p')"
    using en ep by (simp_all add: v1 v2 h0_def[symmetric])
  then have r2: "expNext (h2 ! a) = Some n'" "expPrev (h2 ! a) = Some p'"
    by (simp_all add: fld_Some)
  have "fld expNext h3 a = Some (Some n')" "fld expPrev h3 a = Some (Some p')"
    using en ep by (simp_all add: v1 v2 v3 h0_def[symmetric])
  then have r3: "expNext (h3 ! a) = Some n'" "expPrev (h3 ! a) = Some p'"
    by (simp_all add: fld_Some)
  have "delist c (Some a) = Inr (c\<lparr>mem := h4\<rparr>)"
    unfolding delist_def using a al lt0 len r0 r1 r2 r3
    by (simp add: deref_Some store_Some h0_def[symmetric] h1_def[symmetric]
        h2_def[symmetric] h3_def[symmetric] h4_def[symmetric])
  moreover have "length h4 = length (mem c)"
    by (simp add: len h0_def)
  ultimately show ?thesis
    by (intro exI[of _ h4]) (simp add: v1 v2 v3 v4 h0_def)
qed

lemma chain_lt:
  "chain (fld f h) (fld g h) (x # xs @ [z]) \<Longrightarrow> a \<in> set (x # xs @ [z]) \<Longrightarrow> a < length h"
proof (induction xs arbitrary: x)
  case Nil
  then show ?case by (auto simp: fld_Some)
next
  case (Cons y ys)
  then show ?case by (auto simp: fld_Some)
qed

lemma lists_ok_lt: "lists_ok h L E \<Longrightarrow> a \<in> set L \<Longrightarrow> a < length h"
  unfolding lists_ok_def using chain_lt[of lruNext h lruPrev head L tail a] by simp

lemma lists_ok_sentinels: "lists_ok h L E \<Longrightarrow> Suc 0 < length h"
  unfolding lists_ok_def using chain_lt[of lruNext h lruPrev head L tail tail] by simp

lemma unlink_list:
  assumes d: "distinct L" "x \<notin> set L" "z \<notin> set L" "x \<noteq> z"
    and c: "chain N P (x # L @ [z])"
    and a: "a \<in> set L"
  shows "\<exists>p n. N a = Some (Some n) \<and> P a = Some (Some p) \<and> N p \<noteq> None \<and> P n \<noteq> None
      \<and> chain (N(p \<mapsto> Some n)) (P(n \<mapsto> Some p)) (x # remove1 a L @ [z])"
proof -
  obtain xs p n ys where s: "x # L @ [z] = xs @ p # a # n # ys"
    using interior_split[OF a] by blast
  have dd: "distinct (x # L @ [z])"
    using d by auto
  then have d': "distinct (xs @ p # a # n # ys)"
    using s by simp
  have c': "chain N P (xs @ p # a # n # ys)"
    using c s by simp
  have r: "x # remove1 a L @ [z] = xs @ p # n # ys"
    using remove1_interior[OF dd s] .
  show ?thesis
    using chain_mid[OF c'] chain_unlink[OF d' c'] r by auto
qed

lemma delist_ok:
  assumes ok: "lists_ok (mem c) L E" and a: "a \<in> set L"
  shows "\<exists>h'. delist c (Some a) = Inr (c\<lparr>mem := h'\<rparr>) \<and> same_data (mem c) h'
       \<and> lists_ok h' (remove1 a L) (remove1 a E)"
proof -
  let ?h = "mem c"
  have dL: "distinct L" and dE: "distinct E" and sE: "set E = set L"
    and hL: "head \<notin> set L" and tL: "tail \<notin> set L"
    and cL: "chain (fld lruNext ?h) (fld lruPrev ?h) (head # L @ [tail])"
    and cE: "chain (fld expNext ?h) (fld expPrev ?h) (head # E @ [tail])"
    using ok unfolding lists_ok_def by blast+
  have aE: "a \<in> set E" and hE: "head \<notin> set E" and tE: "tail \<notin> set E"
    using a sE hL tL by simp_all
  have a01: "a \<noteq> head" "a \<noteq> tail"
    using a hL tL by metis+
  have ht: "head \<noteq> tail" by simp
  from unlink_list[OF dL hL tL ht cL a]
  obtain p n where pn: "fld lruNext ?h a = Some (Some n)" "fld lruPrev ?h a = Some (Some p)"
      "fld lruNext ?h p \<noteq> None" "fld lruPrev ?h n \<noteq> None"
      "chain ((fld lruNext ?h)(p \<mapsto> Some n)) ((fld lruPrev ?h)(n \<mapsto> Some p))
         (head # remove1 a L @ [tail])"
    by blast
  from unlink_list[OF dE hE tE ht cE aE]
  obtain p' n' where pn': "fld expNext ?h a = Some (Some n')" "fld expPrev ?h a = Some (Some p')"
      "fld expNext ?h p' \<noteq> None" "fld expPrev ?h n' \<noteq> None"
      "chain ((fld expNext ?h)(p' \<mapsto> Some n')) ((fld expPrev ?h)(n' \<mapsto> Some p'))
         (head # remove1 a E @ [tail])"
    by blast
  have lt: "p < length ?h" "n < length ?h" "p' < length ?h" "n' < length ?h"
    using pn(3,4) pn'(3,4) by (simp_all add: fld_def split: if_splits)
  from delist_views[OF a01 pn(2) pn(1) pn'(2) pn'(1) lt]
  obtain h' where h': "delist c (Some a) = Inr (c\<lparr>mem := h'\<rparr>)" "length h' = length ?h"
      "fld lruNext h' = (fld lruNext ?h)(p \<mapsto> Some n)"
      "fld lruPrev h' = (fld lruPrev ?h)(n \<mapsto> Some p)"
      "fld expNext h' = (fld expNext ?h)(p' \<mapsto> Some n')"
      "fld expPrev h' = (fld expPrev ?h)(n' \<mapsto> Some p')"
      "fld key h' = fld key ?h" "fld val h' = fld val ?h" "fld expiry h' = fld expiry ?h"
    by blast
  have s: "set (remove1 a E) = set (remove1 a L)"
    using dL dE sE by simp
  have "lists_ok h' (remove1 a L) (remove1 a E)"
    unfolding lists_ok_def h'(3-6)
    using dL dE s hL tL pn(5) pn'(5) by (simp add: notin_set_remove1)
  then show ?thesis
    using h' by (intro exI[of _ h']) (simp add: same_data_def)
qed

lemma index_key_inj:
  assumes ix: "index_ok c L" and a: "a \<in> set L" and b: "b \<in> set L"
    and ka: "fld key (mem c) a = Some k" and kb: "fld key (mem c) b = Some k"
  shows "a = b"
proof -
  have "map_of (m c) k = Some (Some a)"
    using ix a ka unfolding index_ok_def by blast
  moreover have "map_of (m c) k = Some (Some b)"
    using ix b kb unfolding index_ok_def by blast
  ultimately show ?thesis by simp
qed

lemma same_data_nth:
  "same_data h h' \<Longrightarrow> a < length h \<Longrightarrow>
     key (h' ! a) = key (h ! a) \<and> val (h' ! a) = val (h ! a) \<and> expiry (h' ! a) = expiry (h ! a)"
proof -
  assume s: "same_data h h'" and al: "a < length h"
  have "fld key h' a = fld key h a" "fld val h' a = fld val h a"
    "fld expiry h' a = fld expiry h a" "length h' = length h"
    using s by (simp_all add: same_data_def)
  then show ?thesis
    using al by (simp add: fld_def)
qed

lemma index_ok_delete:
  assumes ix: "index_ok c L" and dL: "distinct L" and a: "a \<in> set L"
    and al: "a < length (mem c)" and sd: "same_data (mem c) h'"
  shows "index_ok (c\<lparr>mem := h', m := AList.delete (key (mem c ! a)) (m c)\<rparr>) (remove1 a L)"
proof -
  let ?ka = "key (mem c ! a)"
  have ka: "fld key (mem c) a = Some ?ka"
    using al by (simp add: fld_def)
  have fk: "fld key h' = fld key (mem c)"
    using sd by (simp add: same_data_def)
  have sr: "set (remove1 a L) = set L - {a}"
    using dL by simp
  have iff: "\<And>k p. map_of (m c) k = Some p \<longleftrightarrow>
       (\<exists>b\<in>set L. p = Some b \<and> fld key (mem c) b = Some k)"
    using ix unfolding index_ok_def by blast
  have "\<And>k p. map_of (AList.delete ?ka (m c)) k = Some p \<longleftrightarrow>
       (\<exists>b\<in>set L - {a}. p = Some b \<and> fld key (mem c) b = Some k)"
  proof -
    fix k p
    show "map_of (AList.delete ?ka (m c)) k = Some p \<longleftrightarrow>
       (\<exists>b\<in>set L - {a}. p = Some b \<and> fld key (mem c) b = Some k)"
    proof (cases "k = ?ka")
      case True
      have "\<not> (\<exists>b\<in>set L - {a}. p = Some b \<and> fld key (mem c) b = Some k)"
      proof
        assume "\<exists>b\<in>set L - {a}. p = Some b \<and> fld key (mem c) b = Some k"
        then obtain b where b: "b \<in> set L" "b \<noteq> a" "fld key (mem c) b = Some ?ka"
          using True by blast
        from index_key_inj[OF ix a b(1) ka b(3)] b(2) show False by simp
      qed
      then show ?thesis
        using True by (simp add: delete_conv')
    next
      case False
      have na: "\<And>b. fld key (mem c) b = Some k \<Longrightarrow> b \<noteq> a"
        using False ka by force
      have "(\<exists>b\<in>set L. p = Some b \<and> fld key (mem c) b = Some k)
          \<longleftrightarrow> (\<exists>b\<in>set L - {a}. p = Some b \<and> fld key (mem c) b = Some k)"
        using na by blast
      moreover have "map_of (AList.delete ?ka (m c)) k = map_of (m c) k"
        using False by (simp add: delete_conv')
      ultimately show ?thesis
        using iff[of k p] by (simp only:)
    qed
  qed
  moreover have "distinct (map fst (AList.delete ?ka (m c)))"
    using ix by (simp add: index_ok_def distinct_delete)
  ultimately show ?thesis
    unfolding index_ok_def by (simp add: fk sr)
qed

lemma delete_ok:
  assumes w: "well_formed c L E" and a: "a \<in> set L"
  shows "\<exists>c'. delete c (Some a) = Inr c' \<and> well_formed c' (remove1 a L) (remove1 a E)
     \<and> same_data (mem c) (mem c') \<and> maxSize c' = maxSize c \<and> ttl c' = ttl c
     \<and> m c' = AList.delete (key (mem c ! a)) (m c)"
proof -
  have lk: "lists_ok (mem c) L E" and ix: "index_ok c L"
    using w by (simp_all add: well_formed_def)
  from delist_ok[OF lk a]
  obtain h' where h': "delist c (Some a) = Inr (c\<lparr>mem := h'\<rparr>)" "same_data (mem c) h'"
      "lists_ok h' (remove1 a L) (remove1 a E)"
    by blast
  have al: "a < length (mem c)"
    using lists_ok_lt[OF lk a] .
  then have al': "a < length h'"
    using h'(2) by (simp add: same_data_def)
  have k: "key (h' ! a) = key (mem c ! a)"
    using same_data_nth[OF h'(2) al] by simp
  let ?c' = "c\<lparr>mem := h', m := AList.delete (key (mem c ! a)) (m c)\<rparr>"
  have d: "delete c (Some a) = Inr ?c'"
    by (simp add: delete_def h'(1) deref_Some al' k)
  have dL: "distinct L"
    using lk by (simp add: lists_ok_def)
  have "index_ok ?c' (remove1 a L)"
    using index_ok_delete[OF ix dL a al h'(2)] .
  then have "well_formed ?c' (remove1 a L) (remove1 a E)"
    using h'(3) by (simp add: well_formed_def)
  then show ?thesis
    using d h'(2) by (intro exI[of _ ?c']) simp
qed

lemma bindE_assoc: "bindE (bindE x f) g = bindE x (\<lambda>v. bindE (f v) g)"
  by (cases x) simp_all

lemma Put_parts:
  "Put c now now' k v =
     bindE (case map_of (m c) k of Some e \<Rightarrow> delete c e | None \<Rightarrow> Inr c) (\<lambda>c1.
     bindE (link_front c1 now k v) (\<lambda>c3. trim c3 now'))"
  unfolding Put_def link_front_def Let_def bindE_assoc by simp

lemma Get_parts:
  "Get c now k =
     (case map_of (m c) k of
        None \<Rightarrow> Inr (c, [], False)
      | Some e \<Rightarrow>
          bindE (IsExpired (mem c) e now) (\<lambda>expired.
          if expired then bindE (delete c e) (\<lambda>c1. Inr (c1, [], False))
          else bindE (deref (mem c) e) (\<lambda>x0. bindE (promote c e) (\<lambda>c1. Inr (c1, val x0, True)))))"
proof (cases "map_of (m c) k")
  case None
  then show ?thesis by (simp add: Get_def)
next
  case (Some e)
  show ?thesis
  proof (cases "deref (mem c) e")
    case (Inl x)
    then show ?thesis by (simp add: Get_def Some IsExpired_def cong: if_cong)
  next
    case (Inr x0)
    then show ?thesis
      unfolding Get_def promote_def bindE_assoc by (simp add: Some cong: if_cong)
  qed
qed

lemma link_front_views:
  assumes n: "fld lruNext (mem c) head = Some (Some n)"
    and n': "fld expNext (mem c) head = Some (Some n')"
    and lt: "n < length (mem c)" "n' < length (mem c)"
  shows "\<exists>h'. link_front c now k v =
        Inr (c\<lparr>mem := h', m := AList.update k (Some (length (mem c))) (m c)\<rparr>)
     \<and> length h' = Suc (length (mem c))
     \<and> fld lruNext h' = (fld lruNext (mem c))(length (mem c) \<mapsto> Some n, head \<mapsto> Some (length (mem c)))
     \<and> fld lruPrev h' = (fld lruPrev (mem c))(length (mem c) \<mapsto> Some head, n \<mapsto> Some (length (mem c)))
     \<and> fld expNext h' = (fld expNext (mem c))(length (mem c) \<mapsto> Some n', head \<mapsto> Some (length (mem c)))
     \<and> fld expPrev h' = (fld expPrev (mem c))(length (mem c) \<mapsto> Some head, n' \<mapsto> Some (length (mem c)))
     \<and> fld key h' = (fld key (mem c))(length (mem c) \<mapsto> k)
     \<and> fld val h' = (fld val (mem c))(length (mem c) \<mapsto> v)
     \<and> fld expiry h' = (fld expiry (mem c))(length (mem c) \<mapsto>
           (if ttl c > 0 then now + nat (ttl c) else 0))"
proof -
  define a where "a = length (mem c)"
  define x where "x = (if ttl c > 0 then now + nat (ttl c) else 0)"
  define h0 where "h0 = mem c @ [\<lparr>key = k, val = v, expiry = x,
     lruPrev = Some head, lruNext = Some n, expPrev = Some head, expNext = Some n'\<rparr>]"
  define h1 where "h1 = h0[n := (h0 ! n)\<lparr>lruPrev := Some a\<rparr>]"
  define h2 where "h2 = h1[head := (h1 ! head)\<lparr>lruNext := Some a\<rparr>]"
  define h3 where "h3 = h2[n' := (h2 ! n')\<lparr>expPrev := Some a\<rparr>]"
  define h4 where "h4 = h3[head := (h3 ! head)\<lparr>expNext := Some a\<rparr>]"
  have z: "head < length (mem c)"
    using n by (simp add: fld_Some)
  have len: "length h0 = Suc a" "length h1 = Suc a" "length h2 = Suc a" "length h3 = Suc a"
    "length h4 = Suc a"
    by (simp_all add: h0_def h1_def h2_def h3_def h4_def a_def)
  have lt0: "n < Suc a" "n' < Suc a" "head < Suc a"
    using lt by (simp_all add: a_def)
  have v0: "fld lruNext h0 = (fld lruNext (mem c))(a \<mapsto> Some n)"
    "fld lruPrev h0 = (fld lruPrev (mem c))(a \<mapsto> Some head)"
    "fld expNext h0 = (fld expNext (mem c))(a \<mapsto> Some n')"
    "fld expPrev h0 = (fld expPrev (mem c))(a \<mapsto> Some head)"
    "fld key h0 = (fld key (mem c))(a \<mapsto> k)" "fld val h0 = (fld val (mem c))(a \<mapsto> v)"
    "fld expiry h0 = (fld expiry (mem c))(a \<mapsto> x)"
    by (simp_all add: h0_def fld_append a_def)
  have v1: "fld lruNext h1 = fld lruNext h0" "fld lruPrev h1 = (fld lruPrev h0)(n \<mapsto> Some a)"
    "fld expNext h1 = fld expNext h0" "fld expPrev h1 = fld expPrev h0"
    "fld key h1 = fld key h0" "fld val h1 = fld val h0" "fld expiry h1 = fld expiry h0"
    using lt0 len by (simp_all add: h1_def fld_set)
  have v2: "fld lruNext h2 = (fld lruNext h1)(head \<mapsto> Some a)" "fld lruPrev h2 = fld lruPrev h1"
    "fld expNext h2 = fld expNext h1" "fld expPrev h2 = fld expPrev h1"
    "fld key h2 = fld key h1" "fld val h2 = fld val h1" "fld expiry h2 = fld expiry h1"
    using lt0 len by (simp_all add: h2_def fld_set)
  have v3: "fld lruNext h3 = fld lruNext h2" "fld lruPrev h3 = fld lruPrev h2"
    "fld expNext h3 = fld expNext h2" "fld expPrev h3 = (fld expPrev h2)(n' \<mapsto> Some a)"
    "fld key h3 = fld key h2" "fld val h3 = fld val h2" "fld expiry h3 = fld expiry h2"
    using lt0 len by (simp_all add: h3_def fld_set)
  have v4: "fld lruNext h4 = fld lruNext h3" "fld lruPrev h4 = fld lruPrev h3"
    "fld expNext h4 = (fld expNext h3)(head \<mapsto> Some a)" "fld expPrev h4 = fld expPrev h3"
    "fld key h4 = fld key h3" "fld val h4 = fld val h3" "fld expiry h4 = fld expiry h3"
    using lt0 len by (simp_all add: h4_def fld_set)
  have a0: "a \<noteq> head"
    using z by (simp add: a_def)
  have r: "lruNext (mem c ! head) = Some n" "expNext (mem c ! head) = Some n'"
    using n n' by (simp_all add: fld_Some)
  have "fld lruNext h0 head = Some (Some n)"
    using n a0 by (simp add: v0)
  then have r0: "lruNext (h0 ! head) = Some n"
    by (simp add: fld_Some)
  have "fld expNext h2 head = Some (Some n')"
    using n' a0 by (simp add: v0 v1 v2)
  then have r2: "expNext (h2 ! head) = Some n'"
    by (simp add: fld_Some)
  have "link_front c now k v = Inr (c\<lparr>mem := h4, m := AList.update k (Some a) (m c)\<rparr>)"
    unfolding link_front_def Let_def using z r
    by (simp add: deref_Some store_Some a_def[symmetric] x_def[symmetric] h0_def[symmetric]
        len lt0 r0 h1_def[symmetric] h2_def[symmetric] r2 h3_def[symmetric] h4_def[symmetric])
  then show ?thesis
    by (intro exI[of _ h4]) (simp add: v0 v1 v2 v3 v4 len a_def[symmetric] x_def[symmetric])
qed

lemma promote_views:
  assumes a: "a \<noteq> head"
    and lp: "fld lruPrev (mem c) a = Some (Some p)"
    and ln: "fld lruNext (mem c) a = Some (Some n)"
    and f: "((fld lruNext (mem c))(p \<mapsto> Some n)) head = Some (Some f)"
    and lt: "p < length (mem c)" "n < length (mem c)" "f < length (mem c)"
      "head < length (mem c)"
  shows "\<exists>h'. promote c (Some a) = Inr (c\<lparr>mem := h'\<rparr>) \<and> length h' = length (mem c)
     \<and> fld lruNext h' = (fld lruNext (mem c))(p \<mapsto> Some n, a \<mapsto> Some f, head \<mapsto> Some a)
     \<and> fld lruPrev h' = (fld lruPrev (mem c))(n \<mapsto> Some p, a \<mapsto> Some head, f \<mapsto> Some a)
     \<and> fld expNext h' = fld expNext (mem c) \<and> fld expPrev h' = fld expPrev (mem c)
     \<and> fld key h' = fld key (mem c) \<and> fld val h' = fld val (mem c)
     \<and> fld expiry h' = fld expiry (mem c)"
proof -
  define h0 where "h0 = mem c"
  define h1 where "h1 = h0[p := (h0 ! p)\<lparr>lruNext := Some n\<rparr>]"
  define h2 where "h2 = h1[n := (h1 ! n)\<lparr>lruPrev := Some p\<rparr>]"
  define h3 where "h3 = h2[a := (h2 ! a)\<lparr>lruPrev := Some head\<rparr>]"
  define h4 where "h4 = h3[a := (h3 ! a)\<lparr>lruNext := Some f\<rparr>]"
  define h5 where "h5 = h4[f := (h4 ! f)\<lparr>lruPrev := Some a\<rparr>]"
  define h6 where "h6 = h5[head := (h5 ! head)\<lparr>lruNext := Some a\<rparr>]"
  have al: "a < length h0"
    using lp by (simp add: fld_Some h0_def)
  have len: "length h1 = length h0" "length h2 = length h0" "length h3 = length h0"
    "length h4 = length h0" "length h5 = length h0" "length h6 = length h0"
    by (simp_all add: h1_def h2_def h3_def h4_def h5_def h6_def)
  have lt0: "p < length h0" "n < length h0" "f < length h0" "head < length h0"
    using lt by (simp_all add: h0_def)
  have v1: "fld lruNext h1 = (fld lruNext h0)(p \<mapsto> Some n)" "fld lruPrev h1 = fld lruPrev h0"
    "fld expNext h1 = fld expNext h0" "fld expPrev h1 = fld expPrev h0"
    "fld key h1 = fld key h0" "fld val h1 = fld val h0" "fld expiry h1 = fld expiry h0"
    using lt0 by (simp_all add: h1_def fld_set)
  have v2: "fld lruNext h2 = fld lruNext h1" "fld lruPrev h2 = (fld lruPrev h1)(n \<mapsto> Some p)"
    "fld expNext h2 = fld expNext h1" "fld expPrev h2 = fld expPrev h1"
    "fld key h2 = fld key h1" "fld val h2 = fld val h1" "fld expiry h2 = fld expiry h1"
    using lt0 len by (simp_all add: h2_def fld_set)
  have v3: "fld lruNext h3 = fld lruNext h2" "fld lruPrev h3 = (fld lruPrev h2)(a \<mapsto> Some head)"
    "fld expNext h3 = fld expNext h2" "fld expPrev h3 = fld expPrev h2"
    "fld key h3 = fld key h2" "fld val h3 = fld val h2" "fld expiry h3 = fld expiry h2"
    using al len by (simp_all add: h3_def fld_set)
  have v4: "fld lruNext h4 = (fld lruNext h3)(a \<mapsto> Some f)" "fld lruPrev h4 = fld lruPrev h3"
    "fld expNext h4 = fld expNext h3" "fld expPrev h4 = fld expPrev h3"
    "fld key h4 = fld key h3" "fld val h4 = fld val h3" "fld expiry h4 = fld expiry h3"
    using al len by (simp_all add: h4_def fld_set)
  have v5: "fld lruNext h5 = fld lruNext h4" "fld lruPrev h5 = (fld lruPrev h4)(f \<mapsto> Some a)"
    "fld expNext h5 = fld expNext h4" "fld expPrev h5 = fld expPrev h4"
    "fld key h5 = fld key h4" "fld val h5 = fld val h4" "fld expiry h5 = fld expiry h4"
    using lt0 len by (simp_all add: h5_def fld_set)
  have v6: "fld lruNext h6 = (fld lruNext h5)(head \<mapsto> Some a)" "fld lruPrev h6 = fld lruPrev h5"
    "fld expNext h6 = fld expNext h5" "fld expPrev h6 = fld expPrev h5"
    "fld key h6 = fld key h5" "fld val h6 = fld val h5" "fld expiry h6 = fld expiry h5"
    using lt0 len by (simp_all add: h6_def fld_set)
  have r0: "lruPrev (h0 ! a) = Some p" "lruNext (h0 ! a) = Some n"
    using lp ln by (simp_all add: fld_Some h0_def)
  have "fld lruNext h1 a = Some (Some n)" "fld lruPrev h1 a = Some (Some p)"
    using ln lp by (simp_all add: v1 h0_def[symmetric])
  then have r1: "lruNext (h1 ! a) = Some n" "lruPrev (h1 ! a) = Some p"
    by (simp_all add: fld_Some)
  have "fld lruNext h3 head = Some (Some f)"
    using f by (simp add: v1 v2 v3 h0_def[symmetric])
  then have r3: "lruNext (h3 ! head) = Some f"
    by (simp add: fld_Some)
  have "fld lruNext h4 head = Some (Some f)"
    using f a by (simp add: v1 v2 v3 v4 h0_def[symmetric])
  then have r4: "lruNext (h4 ! head) = Some f"
    by (simp add: fld_Some)
  have "promote c (Some a) = Inr (c\<lparr>mem := h6\<rparr>)"
    unfolding promote_def using al lt0 len r0 r1 r3 r4
    by (simp add: deref_Some store_Some h0_def[symmetric] h1_def[symmetric]
        h2_def[symmetric] h3_def[symmetric] h4_def[symmetric] h5_def[symmetric]
        h6_def[symmetric])
  moreover have "length h6 = length (mem c)"
    by (simp add: len h0_def)
  ultimately show ?thesis
    by (intro exI[of _ h6]) (simp add: v1 v2 v3 v4 v5 v6 h0_def)
qed

lemma chain_head: "chain N P (x # L @ [z]) \<Longrightarrow> N x = Some (Some (hd (L @ [z])))"
  by (cases L) simp_all

lemma chain_last: "chain N P (x # L @ [z]) \<Longrightarrow> P z = Some (Some (last (x # L)))"
  by (induction L arbitrary: x) auto

lemma index_ok_cong:
  "index_ok c L \<Longrightarrow> set L' = set L \<Longrightarrow> m c' = m c \<Longrightarrow> fld key (mem c') = fld key (mem c)
     \<Longrightarrow> index_ok c' L'"
  by (simp add: index_ok_def)

lemma index_len:
  assumes ix: "index_ok c L" and dL: "distinct L" and lt: "\<forall>a\<in>set L. a < length (mem c)"
  shows "length (m c) = length L"
proof -
  let ?f = "\<lambda>a. key (mem c ! a)"
  have fk: "\<And>a. a \<in> set L \<Longrightarrow> fld key (mem c) a = Some (?f a)"
    using lt by (simp add: fld_def)
  have inj: "inj_on ?f (set L)"
  proof (rule inj_onI)
    fix a b assume "a \<in> set L" "b \<in> set L" "?f a = ?f b"
    then show "a = b"
      using index_key_inj[OF ix, of a b "?f a"] fk by simp
  qed
  have iff: "\<And>k p. map_of (m c) k = Some p \<longleftrightarrow>
       (\<exists>b\<in>set L. p = Some b \<and> fld key (mem c) b = Some k)"
    using ix unfolding index_ok_def by blast
  have "fst ` set (m c) = ?f ` set L"
  proof (rule set_eqI)
    fix k
    have "k \<in> fst ` set (m c) \<longleftrightarrow> (\<exists>p. map_of (m c) k = Some p)"
      using map_of_eq_None_iff[of "m c" k] by auto
    also have "\<dots> \<longleftrightarrow> (\<exists>b\<in>set L. fld key (mem c) b = Some k)"
      using iff by blast
    also have "\<dots> \<longleftrightarrow> k \<in> ?f ` set L"
      using fk by (auto simp: fld_Some)
    finally show "k \<in> fst ` set (m c) \<longleftrightarrow> k \<in> ?f ` set L" .
  qed
  then have "card (set (map fst (m c))) = card (?f ` set L)"
    by simp
  also have "\<dots> = card (set L)"
    using inj by (rule card_image)
  finally have "card (set (map fst (m c))) = card (set L)" .
  moreover have "distinct (map fst (m c))"
    using ix by (simp add: index_ok_def)
  ultimately show ?thesis
    using dL by (metis distinct_card length_map)
qed

lemma well_formed_len: "well_formed c L E \<Longrightarrow> Len c = int (length L)"
  unfolding Len_def well_formed_def
  using index_len[of c L] lists_ok_lt[of "mem c" L E] by (simp add: lists_ok_def)

lemma well_formed_len_E: "well_formed c L E \<Longrightarrow> length E = length L"
  unfolding well_formed_def lists_ok_def by (metis distinct_card)

lemma promote_ok:
  assumes w: "well_formed c L E" and a: "a \<in> set L"
  shows "\<exists>c'. promote c (Some a) = Inr c' \<and> well_formed c' (a # remove1 a L) E
     \<and> same_data (mem c) (mem c') \<and> maxSize c' = maxSize c \<and> ttl c' = ttl c \<and> m c' = m c"
proof -
  let ?h = "mem c"
  let ?N = "fld lruNext ?h" and ?P = "fld lruPrev ?h"
  have lk: "lists_ok ?h L E" and ix: "index_ok c L"
    using w by (simp_all add: well_formed_def)
  have dL: "distinct L" and dE: "distinct E" and sE: "set E = set L"
    and hL: "head \<notin> set L" and tL: "tail \<notin> set L"
    and cL: "chain ?N ?P (head # L @ [tail])"
    and cE: "chain (fld expNext ?h) (fld expPrev ?h) (head # E @ [tail])"
    using lk unfolding lists_ok_def by blast+
  have a0: "a \<noteq> head"
    using a hL by metis
  have ht: "head \<noteq> tail" by simp
  from unlink_list[OF dL hL tL ht cL a]
  obtain p n where pn: "?N a = Some (Some n)" "?P a = Some (Some p)"
      "?N p \<noteq> None" "?P n \<noteq> None"
      "chain (?N(p \<mapsto> Some n)) (?P(n \<mapsto> Some p)) (head # remove1 a L @ [tail])"
    by blast
  let ?L1 = "remove1 a L"
  let ?f = "hd (?L1 @ [tail])"
  have f: "(?N(p \<mapsto> Some n)) head = Some (Some ?f)"
    using chain_head[OF pn(5)] .
  have sub: "set (head # ?L1 @ [tail]) \<subseteq> set (head # L @ [tail])"
    using set_remove1_subset[of a L] by auto
  have "?f \<in> set (head # ?L1 @ [tail])"
    by (metis hd_in_set list.set_intros(2) snoc_eq_iff_butlast)
  then have "?f \<in> set (head # L @ [tail])"
    using sub by blast
  then have fl: "?f < length ?h"
    using chain_lt[OF cL] by blast
  have lt: "p < length ?h" "n < length ?h" "head < length ?h"
    using pn(3,4) lists_ok_sentinels[OF lk] by (auto simp: fld_def split: if_splits)
  from promote_views[OF a0 pn(2) pn(1) f lt(1,2) fl lt(3)]
  obtain h' where h': "promote c (Some a) = Inr (c\<lparr>mem := h'\<rparr>)" "length h' = length ?h"
     "fld lruNext h' = ?N(p \<mapsto> Some n, a \<mapsto> Some ?f, head \<mapsto> Some a)"
     "fld lruPrev h' = ?P(n \<mapsto> Some p, a \<mapsto> Some head, ?f \<mapsto> Some a)"
     "fld expNext h' = fld expNext ?h" "fld expPrev h' = fld expPrev ?h"
     "fld key h' = fld key ?h" "fld val h' = fld val ?h" "fld expiry h' = fld expiry ?h"
    by blast
  obtain ys where ys: "?L1 @ [tail] = ?f # ys"
    by (metis hd_Cons_tl snoc_eq_iff_butlast)
  have d1: "distinct (head # ?f # ys)"
    using dL hL tL ys[symmetric] by (simp add: notin_set_remove1)
  have an: "a \<notin> set (head # ?f # ys)"
    using dL a0 a tL ys[symmetric] by auto
  have c1: "chain (?N(p \<mapsto> Some n)) (?P(n \<mapsto> Some p)) (head # ?f # ys)"
    using pn(5) ys by simp
  have "chain (fld lruNext h') (fld lruPrev h') (head # a # ?f # ys)"
    unfolding h'(3,4) using chain_push[OF an d1 c1] .
  then have c2: "chain (fld lruNext h') (fld lruPrev h') (head # (a # ?L1) @ [tail])"
    using ys by simp
  have "lists_ok h' (a # ?L1) E"
    unfolding lists_ok_def using c2 cE dL dE sE hL tL a a0 h'(5,6)
    by (auto simp: notin_set_remove1)
  moreover have "index_ok (c\<lparr>mem := h'\<rparr>) (a # ?L1)"
    using index_ok_cong[OF ix, of "a # ?L1" "c\<lparr>mem := h'\<rparr>"] a dL h'(7) by auto
  ultimately show ?thesis
    using h' by (intro exI[of _ "c\<lparr>mem := h'\<rparr>"]) (simp add: well_formed_def same_data_def)
qed

lemma push_list:
  assumes d: "distinct L" "x \<notin> set L" "z \<notin> set L" "x \<noteq> z"
    and a: "a \<notin> set L" "a \<noteq> x" "a \<noteq> z"
    and c: "chain N P (x # L @ [z])"
  shows "chain (N(a \<mapsto> Some (hd (L @ [z])), x \<mapsto> Some a))
     (P(a \<mapsto> Some x, hd (L @ [z]) \<mapsto> Some a)) (x # (a # L) @ [z])"
proof -
  obtain ys where ys: "L @ [z] = hd (L @ [z]) # ys"
    by (metis hd_Cons_tl snoc_eq_iff_butlast)
  have d1: "distinct (x # L @ [z])"
    using d by auto
  have an: "a \<notin> set (x # L @ [z])"
    using a by auto
  have "chain (N(a \<mapsto> Some (hd (L @ [z])), x \<mapsto> Some a))
     (P(a \<mapsto> Some x, hd (L @ [z]) \<mapsto> Some a)) (x # a # hd (L @ [z]) # ys)"
    using chain_push[of a x "hd (L @ [z])" ys N P] an d1 c unfolding ys[symmetric] by blast 
  then show ?thesis
    using ys by simp
qed

lemma index_ok_update:
  assumes ix: "index_ok c L" and nk: "map_of (m c) k = None" and a: "a \<notin> set L"
    and fk: "fld key h' = (fld key (mem c))(a \<mapsto> k)"
  shows "index_ok (c\<lparr>mem := h', m := AList.update k (Some a) (m c)\<rparr>) (a # L)"
proof -
  have iff: "\<And>k p. map_of (m c) k = Some p \<longleftrightarrow>
       (\<exists>b\<in>set L. p = Some b \<and> fld key (mem c) b = Some k)"
    using ix unfolding index_ok_def by blast
  have nb: "\<And>b. b \<in> set L \<Longrightarrow> fld key (mem c) b \<noteq> Some k"
    using iff[of k] nk by auto
  have "\<And>k' p. map_of (AList.update k (Some a) (m c)) k' = Some p \<longleftrightarrow>
       (\<exists>b\<in>set (a # L). p = Some b \<and> ((fld key (mem c))(a \<mapsto> k)) b = Some k')"
  proof -
    fix k' p
    show "map_of (AList.update k (Some a) (m c)) k' = Some p \<longleftrightarrow>
       (\<exists>b\<in>set (a # L). p = Some b \<and> ((fld key (mem c))(a \<mapsto> k)) b = Some k')"
    proof (cases "k' = k")
      case True
      have "(\<exists>b\<in>set (a # L). p = Some b \<and> ((fld key (mem c))(a \<mapsto> k)) b = Some k)
         \<longleftrightarrow> p = Some a"
        using nb a by auto
      then show ?thesis
        using True by (auto simp: update_conv')
    next
      case False
      have "(\<exists>b\<in>set (a # L). p = Some b \<and> ((fld key (mem c))(a \<mapsto> k)) b = Some k')
         \<longleftrightarrow> (\<exists>b\<in>set L. p = Some b \<and> fld key (mem c) b = Some k')"
        using False a by auto
      moreover have "map_of (AList.update k (Some a) (m c)) k' = map_of (m c) k'"
        using False by (simp add: update_conv')
      ultimately show ?thesis
        using iff[of k' p] by (simp only:)
    qed
  qed
  moreover have "distinct (map fst (AList.update k (Some a) (m c)))"
    using ix by (simp add: index_ok_def distinct_update)
  ultimately show ?thesis
    unfolding index_ok_def by (simp add: fk)
qed

lemma link_front_ok:
  assumes w: "well_formed c L E" and nk: "map_of (m c) k = None"
  shows "\<exists>c'. link_front c now k v = Inr c'
     \<and> well_formed c' (length (mem c) # L) (length (mem c) # E)
     \<and> length (mem c') = Suc (length (mem c))
     \<and> fld key (mem c') = (fld key (mem c))(length (mem c) \<mapsto> k)
     \<and> fld val (mem c') = (fld val (mem c))(length (mem c) \<mapsto> v)
     \<and> fld expiry (mem c') = (fld expiry (mem c))(length (mem c) \<mapsto>
           (if ttl c > 0 then now + nat (ttl c) else 0))
     \<and> maxSize c' = maxSize c \<and> ttl c' = ttl c
     \<and> m c' = AList.update k (Some (length (mem c))) (m c)"
proof -
  let ?h = "mem c"
  let ?a = "length ?h"
  have lk: "lists_ok ?h L E" and ix: "index_ok c L"
    using w by (simp_all add: well_formed_def)
  have dL: "distinct L" and dE: "distinct E" and sE: "set E = set L"
    and hL: "head \<notin> set L" and tL: "tail \<notin> set L"
    and cL: "chain (fld lruNext ?h) (fld lruPrev ?h) (head # L @ [tail])"
    and cE: "chain (fld expNext ?h) (fld expPrev ?h) (head # E @ [tail])"
    using lk unfolding lists_ok_def by blast+
  have hE: "head \<notin> set E" and tE: "tail \<notin> set E"
    using sE hL tL by simp_all
  have ht: "head \<noteq> tail" by simp
  let ?n = "hd (L @ [tail])" and ?n' = "hd (E @ [tail])"
  have "?n \<in> set (head # L @ [tail])" "?n' \<in> set (head # E @ [tail])"
    by (metis hd_in_set list.set_intros(2) snoc_eq_iff_butlast)+
  then have lt: "?n < ?a" "?n' < ?a"
    using chain_lt[OF cL] chain_lt[OF cE] by blast+
  have aL: "?a \<notin> set L" and aE: "?a \<notin> set E"
    using lists_ok_lt[OF lk] sE by blast+
  have a01: "?a \<noteq> head" "?a \<noteq> tail"
    using lists_ok_sentinels[OF lk] by auto
  from link_front_views[OF chain_head[OF cL] chain_head[OF cE] lt, of now k v]
  obtain h' where h': "link_front c now k v =
        Inr (c\<lparr>mem := h', m := AList.update k (Some ?a) (m c)\<rparr>)"
     "length h' = Suc ?a"
     "fld lruNext h' = (fld lruNext ?h)(?a \<mapsto> Some ?n, head \<mapsto> Some ?a)"
     "fld lruPrev h' = (fld lruPrev ?h)(?a \<mapsto> Some head, ?n \<mapsto> Some ?a)"
     "fld expNext h' = (fld expNext ?h)(?a \<mapsto> Some ?n', head \<mapsto> Some ?a)"
     "fld expPrev h' = (fld expPrev ?h)(?a \<mapsto> Some head, ?n' \<mapsto> Some ?a)"
     "fld key h' = (fld key ?h)(?a \<mapsto> k)"
     "fld val h' = (fld val ?h)(?a \<mapsto> v)"
     "fld expiry h' = (fld expiry ?h)(?a \<mapsto> (if ttl c > 0 then now + nat (ttl c) else 0))"
    by blast
  have c1: "chain (fld lruNext h') (fld lruPrev h') (head # (?a # L) @ [tail])"
    unfolding h'(3,4) using push_list[OF dL hL tL ht aL a01 cL] .
  have c2: "chain (fld expNext h') (fld expPrev h') (head # (?a # E) @ [tail])"
    unfolding h'(5,6) using push_list[OF dE hE tE ht aE a01 cE] .
  have "lists_ok h' (?a # L) (?a # E)"
    unfolding lists_ok_def using c1 c2 dL dE sE hL tL aL aE a01 by simp
  moreover have "index_ok (c\<lparr>mem := h', m := AList.update k (Some ?a) (m c)\<rparr>) (?a # L)"
    using index_ok_update[OF ix nk aL h'(7)] .
  ultimately show ?thesis
    using h' by (intro exI[of _ "c\<lparr>mem := h', m := AList.update k (Some ?a) (m c)\<rparr>"])
      (simp add: well_formed_def)
qed

lemma IsExpired_Some:
  "a < length h \<Longrightarrow> IsExpired h (Some a) now = Inr (expired_at h a now)"
  by (auto simp: IsExpired_def deref_Some expired_at_def)

lemma trim_noop: "\<not> evicts c (length (m c)) \<Longrightarrow> trim c now = Inr c"
  by (auto simp: trim_def evicts_def Len_def)

lemma trim_evict:
  assumes w: "well_formed c L E" and ev: "evicts c (length L)"
  shows "trim c now = delete c (Some (victim (mem c) L E now))"
    and "victim (mem c) L E now \<in> set L"
proof -
  let ?h = "mem c"
  have lk: "lists_ok ?h L E"
    using w by (simp add: well_formed_def)
  have sE: "set E = set L"
    and cL: "chain (fld lruNext ?h) (fld lruPrev ?h) (head # L @ [tail])"
    and cE: "chain (fld expNext ?h) (fld expPrev ?h) (head # E @ [tail])"
    using lk unfolding lists_ok_def by blast+
  have ne: "L \<noteq> []"
    using ev by (auto simp: evicts_def)
  then have neE: "E \<noteq> []"
    using sE by auto
  have lL: "last L \<in> set L" and lE: "last E \<in> set L"
    using ne neE sE last_in_set by blast+
  then have lt: "last L < length ?h" "last E < length ?h"
    using lists_ok_lt[OF lk] by blast+
  have "fld lruPrev ?h tail = Some (Some (last L))"
    using chain_last[OF cL] ne by simp
  then have p1: "lruPrev (?h ! tail) = Some (last L)"
    by (simp add: fld_Some)
  have "fld expPrev ?h tail = Some (Some (last E))"
    using chain_last[OF cE] neE by simp
  then have p2: "expPrev (?h ! tail) = Some (last E)"
    by (simp add: fld_Some)
  have len: "Len c = int (length L)"
    using well_formed_len[OF w] .
  show "trim c now = delete c (Some (victim (mem c) L E now))"
    using ev lists_ok_sentinels[OF lk] lt
    by (simp add: trim_def len evicts_def deref_Some p1 p2 IsExpired_Some victim_def)
  show "victim (mem c) L E now \<in> set L"
    using lL lE by (simp add: victim_def)
qed

lemma well_formed_index:
  "well_formed c L E \<Longrightarrow> map_of (m c) k = Some p \<longleftrightarrow> (\<exists>a\<in>set L. p = Some a \<and> fld key (mem c) a = Some k)"
  unfolding well_formed_def index_ok_def by blast

lemma well_formed_index_Some:
  assumes w: "well_formed c L E" and k: "map_of (m c) k = Some p"
  shows "\<exists>a. p = Some a \<and> a \<in> set L \<and> a < length (mem c) \<and> key (mem c ! a) = k"
proof -
  obtain a where a: "a \<in> set L" "p = Some a" "fld key (mem c) a = Some k"
    using well_formed_index[OF w, of k p] k by blast
  then show ?thesis
    by (auto simp: fld_Some)
qed

lemma replace_ok:
  assumes w: "well_formed c L E"
  shows "\<exists>c1. (case map_of (m c) k of Some e \<Rightarrow> delete c e | None \<Rightarrow> Inr c) = Inr c1
     \<and> well_formed c1 (unlinked (map_of (m c) k) L) (unlinked (map_of (m c) k) E)
     \<and> same_data (mem c) (mem c1) \<and> maxSize c1 = maxSize c \<and> ttl c1 = ttl c
     \<and> map_of (m c1) = (map_of (m c))(k := None)"
proof (cases "map_of (m c) k")
  case None
  have "(map_of (m c))(k := None) = map_of (m c)"
    using None by auto
  then show ?thesis
    using None w by (simp add: unlinked_def same_data_def)
next
  case (Some p)
  then obtain b where b: "p = Some b" "b \<in> set L" "b < length (mem c)" "key (mem c ! b) = k"
    using well_formed_index_Some[OF w] by blast
  from delete_ok[OF w b(2)] obtain c1 where c1: "delete c (Some b) = Inr c1"
     "well_formed c1 (remove1 b L) (remove1 b E)" "same_data (mem c) (mem c1)"
     "maxSize c1 = maxSize c" "ttl c1 = ttl c" "m c1 = AList.delete (key (mem c ! b)) (m c)"
    by blast
  show ?thesis
    using Some b c1 by (simp add: unlinked_def delete_conv')
qed

lemma fld_eq_nth: "fld f h' b = fld f h b \<Longrightarrow> b < length h \<Longrightarrow> f (h' ! b) = f (h ! b)"
  by (auto simp: fld_def split: if_splits)

lemma relink_ok:
  assumes w: "well_formed c L E"
  shows "\<exists>c2. bindE (case map_of (m c) k of Some e \<Rightarrow> delete c e | None \<Rightarrow> Inr c)
           (\<lambda>c1. link_front c1 now k v) = Inr c2
     \<and> well_formed c2 (length (mem c) # unlinked (map_of (m c) k) L)
              (length (mem c) # unlinked (map_of (m c) k) E)
     \<and> length (mem c2) = Suc (length (mem c))
     \<and> fld key (mem c2) = (fld key (mem c))(length (mem c) \<mapsto> k)
     \<and> fld val (mem c2) = (fld val (mem c))(length (mem c) \<mapsto> v)
     \<and> fld expiry (mem c2) = (fld expiry (mem c))(length (mem c) \<mapsto>
           (if ttl c > 0 then now + nat (ttl c) else 0))
     \<and> maxSize c2 = maxSize c \<and> ttl c2 = ttl c
     \<and> map_of (m c2) = (map_of (m c))(k \<mapsto> Some (length (mem c)))"
proof -
  from replace_ok[OF w, of k] obtain c1 where c1:
     "(case map_of (m c) k of Some e \<Rightarrow> delete c e | None \<Rightarrow> Inr c) = Inr c1"
     "well_formed c1 (unlinked (map_of (m c) k) L) (unlinked (map_of (m c) k) E)"
     "same_data (mem c) (mem c1)" "maxSize c1 = maxSize c" "ttl c1 = ttl c"
     "map_of (m c1) = (map_of (m c))(k := None)"
    by blast
  have nk: "map_of (m c1) k = None"
    by (simp add: c1(6))
  have sd: "length (mem c1) = length (mem c)" "fld key (mem c1) = fld key (mem c)"
    "fld val (mem c1) = fld val (mem c)" "fld expiry (mem c1) = fld expiry (mem c)"
    using c1(3) by (simp_all add: same_data_def)
  from link_front_ok[OF c1(2) nk, of now v] obtain c2 where c2:
     "link_front c1 now k v = Inr c2"
     "well_formed c2 (length (mem c1) # unlinked (map_of (m c) k) L)
            (length (mem c1) # unlinked (map_of (m c) k) E)"
     "length (mem c2) = Suc (length (mem c1))"
     "fld key (mem c2) = (fld key (mem c1))(length (mem c1) \<mapsto> k)"
     "fld val (mem c2) = (fld val (mem c1))(length (mem c1) \<mapsto> v)"
     "fld expiry (mem c2) = (fld expiry (mem c1))(length (mem c1) \<mapsto>
           (if ttl c1 > 0 then now + nat (ttl c1) else 0))"
     "maxSize c2 = maxSize c1" "ttl c2 = ttl c1"
     "m c2 = AList.update k (Some (length (mem c1))) (m c1)"
    by blast
  have "map_of (m c2) = (map_of (m c))(k \<mapsto> Some (length (mem c)))"
    by (simp add: c2(9) update_conv' c1(6) sd(1))
  then show ?thesis
    using c1(1) c2 by (intro exI[of _ c2]) (simp add: sd c1(4,5))
qed

lemma Put_ok:
  fixes c :: lruCache and k :: string and now' :: nat and L E :: "nat list"
  assumes w: "well_formed c L E"
  defines "a \<equiv> length (mem c)"
    and "L1 \<equiv> unlinked (map_of (m c) k) L"
    and "E1 \<equiv> unlinked (map_of (m c) k) E"
  defines "vic \<equiv> victim (mem c) L1 E1 now'"
  shows "\<exists>c'. Put c now now' k v = Inr c'
     \<and> length (mem c') = Suc a
     \<and> fld key (mem c') = (fld key (mem c))(a \<mapsto> k)
     \<and> fld val (mem c') = (fld val (mem c))(a \<mapsto> v)
     \<and> fld expiry (mem c') = (fld expiry (mem c))(a \<mapsto>
           (if ttl c > 0 then now + nat (ttl c) else 0))
     \<and> maxSize c' = maxSize c \<and> ttl c' = ttl c
     \<and> (if evicts c (Suc (length L1))
         then vic \<in> set L1 \<and> well_formed c' (a # remove1 vic L1) (a # remove1 vic E1)
            \<and> map_of (m c') = ((map_of (m c))(k \<mapsto> Some a))(key (mem c ! vic) := None)
         else well_formed c' (a # L1) (a # E1) \<and> map_of (m c') = (map_of (m c))(k \<mapsto> Some a))"
proof -
  from relink_ok[OF w, of k now v] obtain c2 where c2:
     "bindE (case map_of (m c) k of Some e \<Rightarrow> delete c e | None \<Rightarrow> Inr c)
           (\<lambda>c1. link_front c1 now k v) = Inr c2"
     "well_formed c2 (a # L1) (a # E1)"
     "length (mem c2) = Suc a"
     "fld key (mem c2) = (fld key (mem c))(a \<mapsto> k)"
     "fld val (mem c2) = (fld val (mem c))(a \<mapsto> v)"
     "fld expiry (mem c2) = (fld expiry (mem c))(a \<mapsto>
           (if ttl c > 0 then now + nat (ttl c) else 0))"
     "maxSize c2 = maxSize c" "ttl c2 = ttl c"
     "map_of (m c2) = (map_of (m c))(k \<mapsto> Some a)"
    unfolding a_def L1_def E1_def by blast
  have P: "Put c now now' k v = trim c2 now'"
    using c2(1) unfolding Put_parts bindE_assoc[symmetric] by simp
  have len2: "length (m c2) = Suc (length L1)"
    using well_formed_len[OF c2(2)] by (simp add: Len_def)
  have ev2: "evicts c2 n = evicts c n" for n
    by (simp add: evicts_def c2(7))
  show ?thesis
  proof (cases "evicts c (Suc (length L1))")
    case False
    then have "trim c2 now' = Inr c2"
      using trim_noop[of c2 now'] by (simp add: len2 ev2)
    then show ?thesis
      using False P c2 by (intro exI[of _ c2]) simp
  next
    case True
    have ev: "evicts c2 (length (a # L1))"
      using True by (simp add: ev2)
    let ?vic2 = "victim (mem c2) (a # L1) (a # E1) now'"
    have lk2: "lists_ok (mem c2) (a # L1) (a # E1)"
      using c2(2) by (simp add: well_formed_def)
    then have d2: "distinct (a # L1)" "distinct (a # E1)"
      and s2: "set (a # E1) = set (a # L1)"
      unfolding lists_ok_def by blast+
    have na: "a \<notin> set L1" "a \<notin> set E1"
      using d2 by simp_all
    have "insert a (set E1) = insert a (set L1)"
      using s2 by simp
    then have sEL: "set E1 = set L1"
      using na by (simp add: insert_ident)
    have ne: "L1 \<noteq> []"
      using True by (auto simp: evicts_def)
    then have neE: "E1 \<noteq> []"
      using sEL by auto
    have in1: "last E1 \<in> set L1" "last L1 \<in> set L1"
      using ne neE sEL last_in_set by blast+
    have lt1: "\<And>b. b \<in> set L1 \<Longrightarrow> b < a \<and> b \<noteq> a"
    proof -
      fix b assume b: "b \<in> set L1"
      have "b \<noteq> a" using b na by metis
      moreover have "b < Suc a"
        using lists_ok_lt[OF lk2, of b] b c2(3) by simp
      ultimately show "b < a \<and> b \<noteq> a" by simp
    qed
    have ex: "expiry (mem c2 ! last E1) = expiry (mem c ! last E1)"
      using lt1[OF in1(1)] by (intro fld_eq_nth) (simp_all add: c2(6) a_def)
    have veq: "?vic2 = vic"
      using ne neE ex by (simp add: victim_def vic_def expired_at_def)
    have vin: "vic \<in> set L1"
      using in1 by (simp add: vic_def victim_def)
    have kv: "key (mem c2 ! vic) = key (mem c ! vic)"
      using lt1[OF vin] by (intro fld_eq_nth) (simp_all add: c2(4) a_def)
    have T: "trim c2 now' = delete c2 (Some vic)"
      using trim_evict(1)[OF c2(2) ev, of now'] veq by simp
    have vin2: "vic \<in> set (a # L1)"
      using vin by simp
    from delete_ok[OF c2(2) vin2] obtain c' where c':
      "delete c2 (Some vic) = Inr c'" "well_formed c' (remove1 vic (a # L1)) (remove1 vic (a # E1))"
      "same_data (mem c2) (mem c')" "maxSize c' = maxSize c2" "ttl c' = ttl c2"
      "m c' = AList.delete (key (mem c2 ! vic)) (m c2)"
      by blast
    have well_formed': "well_formed c' (a # remove1 vic L1) (a # remove1 vic E1)"
      using c'(2) lt1[OF vin] by simp
    have mm: "map_of (m c') = ((map_of (m c))(k \<mapsto> Some a))(key (mem c ! vic) := None)"
      by (simp add: c'(6) delete_conv' c2(9) kv)
    have sd: "length (mem c') = length (mem c2)" "fld key (mem c') = fld key (mem c2)"
      "fld val (mem c') = fld val (mem c2)" "fld expiry (mem c') = fld expiry (mem c2)"
      using c'(3) by (simp_all add: same_data_def)
    show ?thesis
      using True P T c'(1) well_formed' mm vin
      by (intro exI[of _ c']) (simp add: sd c2 c'(4,5))
  qed
qed

lemma Get_absent: "map_of (m c) k = None \<Longrightarrow> Get c now k = Inr (c, [], False)"
  by (simp add: Get_def)

lemma Get_expired:
  assumes w: "well_formed c L E" and k: "map_of (m c) k = Some (Some b)"
    and x: "expired_at (mem c) b now"
  shows "\<exists>c'. Get c now k = Inr (c', [], False) \<and> well_formed c' (remove1 b L) (remove1 b E)
     \<and> same_data (mem c) (mem c') \<and> maxSize c' = maxSize c \<and> ttl c' = ttl c
     \<and> map_of (m c') = (map_of (m c))(k := None)"
proof -
  have b: "b \<in> set L" "b < length (mem c)" "key (mem c ! b) = k"
    using well_formed_index_Some[OF w k] by auto
  from delete_ok[OF w b(1)] obtain c' where c': "delete c (Some b) = Inr c'"
     "well_formed c' (remove1 b L) (remove1 b E)" "same_data (mem c) (mem c')"
     "maxSize c' = maxSize c" "ttl c' = ttl c" "m c' = AList.delete (key (mem c ! b)) (m c)"
    by blast
  have "Get c now k = Inr (c', [], False)"
    using x by (simp add: Get_parts k IsExpired_Some b(2) c'(1))
  then show ?thesis
    using c' b(3) by (intro exI[of _ c']) (simp add: delete_conv')
qed

lemma Get_live:
  assumes w: "well_formed c L E" and k: "map_of (m c) k = Some (Some b)"
    and x: "\<not> expired_at (mem c) b now"
  shows "\<exists>c'. Get c now k = Inr (c', val (mem c ! b), True) \<and> well_formed c' (b # remove1 b L) E
     \<and> same_data (mem c) (mem c') \<and> maxSize c' = maxSize c \<and> ttl c' = ttl c
     \<and> m c' = m c"
proof -
  have b: "b \<in> set L" "b < length (mem c)" "key (mem c ! b) = k"
    using well_formed_index_Some[OF w k] by auto
  from promote_ok[OF w b(1)] obtain c' where c': "promote c (Some b) = Inr c'"
     "well_formed c' (b # remove1 b L) E" "same_data (mem c) (mem c')"
     "maxSize c' = maxSize c" "ttl c' = ttl c" "m c' = m c"
    by blast
  have "Get c now k = Inr (c', val (mem c ! b), True)"
    using x by (simp add: Get_parts k IsExpired_Some b(2) c'(1) deref_Some)
  then show ?thesis
    using c' by (intro exI[of _ c']) simp
qed

lemma Delete_absent: "map_of (m c) k = None \<Longrightarrow> Delete c k = Inr (c, False)"
  by (simp add: Delete_def)

lemma Delete_present:
  assumes w: "well_formed c L E" and k: "map_of (m c) k = Some (Some b)"
  shows "\<exists>c'. Delete c k = Inr (c', True) \<and> well_formed c' (remove1 b L) (remove1 b E)
     \<and> same_data (mem c) (mem c') \<and> maxSize c' = maxSize c \<and> ttl c' = ttl c
     \<and> map_of (m c') = (map_of (m c))(k := None)"
proof -
  have b: "b \<in> set L" "b < length (mem c)" "key (mem c ! b) = k"
    using well_formed_index_Some[OF w k] by auto
  from delete_ok[OF w b(1)] obtain c' where c': "delete c (Some b) = Inr c'"
     "well_formed c' (remove1 b L) (remove1 b E)" "same_data (mem c) (mem c')"
     "maxSize c' = maxSize c" "ttl c' = ttl c" "m c' = AList.delete (key (mem c ! b)) (m c)"
    by blast
  have "Delete c k = Inr (c', True)"
    by (simp add: Delete_def k c'(1))
  then show ?thesis
    using c' b(3) by (intro exI[of _ c']) (simp add: delete_conv')
qed

lemma New_inv: "New ms tt = Inr c \<Longrightarrow> cache_inv c [] [] \<and> maxSize c = ms \<and> ttl c = tt"
  by (auto simp: New_def cache_inv_def well_formed_def lists_ok_def index_ok_def fld_def zeroEntry_def
      split: if_splits)

lemma well_formed_lt: "well_formed c L E \<Longrightarrow> a \<in> set L \<Longrightarrow> a < length (mem c)"
  using lists_ok_lt by (auto simp: well_formed_def)

lemma well_formed_distinct: "well_formed c L E \<Longrightarrow> distinct L \<and> distinct E \<and> set E = set L"
  by (auto simp: well_formed_def lists_ok_def)

lemma unlinked_cases:
  "unlinked old L = L \<or> (\<exists>b. unlinked old L = remove1 b L)"
  by (auto simp: unlinked_def split: option.splits)

lemma unlinked_set: "set (unlinked old L) \<subseteq> set L"
  by (auto simp: unlinked_def split: option.splits dest: set_mp[OF set_remove1_subset])

lemma unlinked_length: "length (unlinked old L) \<le> length L"
  by (auto simp: unlinked_def length_remove1 split: option.splits)

lemma same_data_expiry:
  "same_data h h' \<Longrightarrow> a < length h \<Longrightarrow> expiry (h' ! a) = expiry (h ! a)"
  using same_data_nth by blast

lemma inv_shrink:
  assumes i: "cache_inv c L E" and w: "well_formed c' L' E'" and s: "set L' \<subseteq> set L"
    and l: "length L' \<le> length L"
    and sd: "same_data (mem c) (mem c')" and ms: "maxSize c' = maxSize c" "ttl c' = ttl c"
  shows "cache_inv c' L' E'"
proof -
  have "\<forall>a\<in>set L'. (0 < expiry (mem c' ! a)) = (0 < ttl c')"
  proof
    fix a assume a: "a \<in> set L'"
    then have aL: "a \<in> set L" using s by blast
    have "a < length (mem c)"
      using well_formed_lt[of c L E a] i aL by (simp add: cache_inv_def)
    then have "expiry (mem c' ! a) = expiry (mem c ! a)"
      using same_data_expiry[OF sd] by blast
    then show "(0 < expiry (mem c' ! a)) = (0 < ttl c')"
      using i aL ms by (simp add: cache_inv_def)
  qed
  then show ?thesis
    using i w l ms unfolding cache_inv_def by auto
qed

lemma fld_upd_nth_same: "fld f h' = (fld f h)(length h \<mapsto> x) \<Longrightarrow> f (h' ! length h) = x"
proof -
  assume "fld f h' = (fld f h)(length h \<mapsto> x)"
  then have "fld f h' (length h) = Some x" by simp
  then show ?thesis by (simp add: fld_Some)
qed

lemma fld_upd_nth_other:
  "fld f h' = (fld f h)(length h \<mapsto> x) \<Longrightarrow> b < length h \<Longrightarrow> f (h' ! b) = f (h ! b)"
  by (intro fld_eq_nth) simp_all

lemma length_remove1_in: "a \<in> set xs \<Longrightarrow> length (a # remove1 a xs) = length xs"
  using length_pos_if_in_set[of a xs] by (simp add: length_remove1)

lemma length_remove1_in': "a \<in> set xs \<Longrightarrow> length (b # remove1 a xs) = length xs"
  using length_pos_if_in_set[of a xs] by (simp add: length_remove1)

lemma inv_grow:
  assumes i: "cache_inv c L E" and w: "well_formed c' L' E'"
    and s: "set L' \<subseteq> insert (length (mem c)) (set L)"
    and x: "fld expiry (mem c') = (fld expiry (mem c))(length (mem c) \<mapsto>
           (if ttl c > 0 then now + nat (ttl c) else 0))"
    and ms: "maxSize c' = maxSize c" "ttl c' = ttl c"
    and l: "0 < maxSize c \<longrightarrow> int (length L') \<le> maxSize c"
  shows "cache_inv c' L' E'"
proof -
  have t: "0 \<le> ttl c"
    using i by (simp add: cache_inv_def)
  have "\<forall>a\<in>set L'. (0 < expiry (mem c' ! a)) = (0 < ttl c')"
  proof
    fix a assume a: "a \<in> set L'"
    show "(0 < expiry (mem c' ! a)) = (0 < ttl c')"
    proof (cases "a = length (mem c)")
      case True
      then show ?thesis
        using fld_upd_nth_same[OF x] t ms by auto
    next
      case False
      then have aL: "a \<in> set L" using a s by blast
      have al: "a < length (mem c)"
        using well_formed_lt[of c L E a] i aL by (simp add: cache_inv_def)
      have "expiry (mem c' ! a) = expiry (mem c ! a)"
        using fld_upd_nth_other[OF x al] .
      then show ?thesis
        using i aL ms by (simp add: cache_inv_def)
    qed
  qed
  then show ?thesis
    using i w l ms unfolding cache_inv_def by auto
qed

lemma Put_inv:
  assumes i: "cache_inv c L E"
  shows "\<exists>c' L' E'. Put c now now' k v = Inr c' \<and> cache_inv c' L' E'
     \<and> maxSize c' = maxSize c \<and> ttl c' = ttl c"
proof -
  have w: "well_formed c L E"
    using i by (simp add: cache_inv_def)
  let ?a = "length (mem c)"
  let ?L1 = "unlinked (map_of (m c) k) L" and ?E1 = "unlinked (map_of (m c) k) E"
  let ?vic = "victim (mem c) ?L1 ?E1 now'"
  from Put_ok[OF w, of now now' k v] obtain c' where c':
     "Put c now now' k v = Inr c'"
     "fld expiry (mem c') = (fld expiry (mem c))(?a \<mapsto>
           (if ttl c > 0 then now + nat (ttl c) else 0))"
     "maxSize c' = maxSize c" "ttl c' = ttl c"
     "if evicts c (Suc (length ?L1))
         then ?vic \<in> set ?L1 \<and> well_formed c' (?a # remove1 ?vic ?L1) (?a # remove1 ?vic ?E1)
            \<and> map_of (m c') = ((map_of (m c))(k \<mapsto> Some ?a))(key (mem c ! ?vic) := None)
         else well_formed c' (?a # ?L1) (?a # ?E1) \<and> map_of (m c') = (map_of (m c))(k \<mapsto> Some ?a)"
    by blast
  have l1: "length ?L1 \<le> length L" and s1: "set ?L1 \<subseteq> set L"
    using unlinked_length unlinked_set by blast+
  have bound: "0 < maxSize c \<longrightarrow> int (length L) \<le> maxSize c"
    using i by (simp add: cache_inv_def)
  show ?thesis
  proof (cases "evicts c (Suc (length ?L1))")
    case True
    then have v: "?vic \<in> set ?L1" and w': "well_formed c' (?a # remove1 ?vic ?L1) (?a # remove1 ?vic ?E1)"
      using c'(5) by simp_all
    have "length (?a # remove1 ?vic ?L1) = length ?L1"
      using v by (rule length_remove1_in')
    then have l: "0 < maxSize c \<longrightarrow> int (length (?a # remove1 ?vic ?L1)) \<le> maxSize c"
      using l1 bound by (simp only:) linarith
    have s: "set (?a # remove1 ?vic ?L1) \<subseteq> insert ?a (set L)"
      using s1 set_remove1_subset[of ?vic ?L1] by auto
    have "cache_inv c' (?a # remove1 ?vic ?L1) (?a # remove1 ?vic ?E1)"
      using inv_grow[OF i w' s c'(2) c'(3) c'(4) l] .
    then show ?thesis
      using c'(1,3,4) by blast
  next
    case False
    then have w': "well_formed c' (?a # ?L1) (?a # ?E1)"
      using c'(5) by simp
    have l: "0 < maxSize c \<longrightarrow> int (length (?a # ?L1)) \<le> maxSize c"
      using False by (auto simp: evicts_def)
    have s: "set (?a # ?L1) \<subseteq> insert ?a (set L)"
      using s1 by auto
    have "cache_inv c' (?a # ?L1) (?a # ?E1)"
      using inv_grow[OF i w' s c'(2) c'(3) c'(4) l] .
    then show ?thesis
      using c'(1,3,4) by blast
  qed
qed

lemma inv_index_Some:
  "cache_inv c L E \<Longrightarrow> map_of (m c) k = Some p \<Longrightarrow> \<exists>b. p = Some b \<and> b \<in> set L"
  using well_formed_index_Some[of c L E k p] by (auto simp: cache_inv_def)

lemma Get_inv:
  assumes i: "cache_inv c L E"
  shows "\<exists>c' r ok L' E'. Get c now k = Inr (c', r, ok) \<and> cache_inv c' L' E'
     \<and> maxSize c' = maxSize c \<and> ttl c' = ttl c"
proof (cases "map_of (m c) k")
  case None
  then show ?thesis
    using i Get_absent[OF None] by blast
next
  case (Some p)
  then obtain b where b: "p = Some b" "b \<in> set L"
    using inv_index_Some[OF i] by blast
  have w: "well_formed c L E"
    using i by (simp add: cache_inv_def)
  have k: "map_of (m c) k = Some (Some b)"
    using Some b by simp
  show ?thesis
  proof (cases "expired_at (mem c) b now")
    case True
    from Get_expired[OF w k True] obtain c' where c':
      "Get c now k = Inr (c', [], False)" "well_formed c' (remove1 b L) (remove1 b E)"
      "same_data (mem c) (mem c')" "maxSize c' = maxSize c" "ttl c' = ttl c"
      by blast
    have "cache_inv c' (remove1 b L) (remove1 b E)"
      using inv_shrink[OF i c'(2) set_remove1_subset _ c'(3,4,5)]
      by (simp add: length_remove1)
    then show ?thesis
      using c'(1,4,5) by blast
  next
    case False
    from Get_live[OF w k False] obtain c' where c':
      "Get c now k = Inr (c', val (mem c ! b), True)" "well_formed c' (b # remove1 b L) E"
      "same_data (mem c) (mem c')" "maxSize c' = maxSize c" "ttl c' = ttl c"
      by blast
    have s: "set (b # remove1 b L) \<subseteq> set L"
      using b(2) set_remove1_subset[of b L] by auto
    have l: "length (b # remove1 b L) \<le> length L"
      using length_remove1_in[OF b(2)] by simp
    have "cache_inv c' (b # remove1 b L) E"
      using inv_shrink[OF i c'(2) s l c'(3,4,5)] .
    then show ?thesis
      using c'(1,4,5) by blast
  qed
qed

lemma Delete_inv:
  assumes i: "cache_inv c L E"
  shows "\<exists>c' ok L' E'. Delete c k = Inr (c', ok) \<and> cache_inv c' L' E'
     \<and> maxSize c' = maxSize c \<and> ttl c' = ttl c"
proof (cases "map_of (m c) k")
  case None
  then show ?thesis
    using i Delete_absent[OF None] by blast
next
  case (Some p)
  then obtain b where b: "p = Some b" "b \<in> set L"
    using inv_index_Some[OF i] by blast
  have w: "well_formed c L E"
    using i by (simp add: cache_inv_def)
  have k: "map_of (m c) k = Some (Some b)"
    using Some b by simp
  from Delete_present[OF w k] obtain c' where c':
    "Delete c k = Inr (c', True)" "well_formed c' (remove1 b L) (remove1 b E)"
    "same_data (mem c) (mem c')" "maxSize c' = maxSize c" "ttl c' = ttl c"
    by blast
  have "cache_inv c' (remove1 b L) (remove1 b E)"
    using inv_shrink[OF i c'(2) set_remove1_subset _ c'(3,4,5)]
    by (simp add: length_remove1)
  then show ?thesis
    using c'(1,4,5) by blast
qed

lemma exec_inv:
  assumes i: "cache_inv c L E"
  shows "\<exists>c' r L' E'. exec c x = Inr (c', r) \<and> cache_inv c' L' E'
     \<and> maxSize c' = maxSize c \<and> ttl c' = ttl c"
proof (cases x)
  case (CallPut now now' k v)
  from Put_inv[OF i, of now now' k v] obtain c' L' E' where c':
    "Put c now now' k v = Inr c'" "cache_inv c' L' E'" "maxSize c' = maxSize c" "ttl c' = ttl c"
    by blast
  have "exec c x = Inr (c', PutDone)"
    by (simp add: CallPut c'(1))
  then show ?thesis
    using c'(2,3,4) by blast
next
  case (CallGet now k)
  from Get_inv[OF i, of now k] obtain c' r ok L' E' where c':
    "Get c now k = Inr (c', r, ok)" "cache_inv c' L' E'" "maxSize c' = maxSize c" "ttl c' = ttl c"
    by blast
  have "exec c x = Inr (c', GetReply r ok)"
    by (simp add: CallGet c'(1))
  then show ?thesis
    using c'(2,3,4) by blast
next
  case (CallDelete k)
  from Delete_inv[OF i, of k] obtain c' ok L' E' where c':
    "Delete c k = Inr (c', ok)" "cache_inv c' L' E'" "maxSize c' = maxSize c" "ttl c' = ttl c"
    by blast
  have "exec c x = Inr (c', DeleteReply ok)"
    by (simp add: CallDelete c'(1))
  then show ?thesis
    using c'(2,3,4) by blast
next
  case CallLen
  have "exec c x = Inr (c, LenReply (Len c))"
    by (simp add: CallLen)
  then show ?thesis
    using i by blast
qed

lemma run_inv:
  "cache_inv c L E \<Longrightarrow> \<exists>c' rs L' E'. run c xs = Inr (c', rs) \<and> cache_inv c' L' E'
     \<and> maxSize c' = maxSize c \<and> ttl c' = ttl c"
proof (induction xs arbitrary: c L E)
  case Nil
  then show ?case by (intro exI[of _ c] exI[of _ "[]"] exI[of _ L] exI[of _ E]) simp
next
  case (Cons x xs)
  from exec_inv[OF Cons.prems, of x] obtain c1 r L1 E1 where c1:
    "exec c x = Inr (c1, r)" "cache_inv c1 L1 E1" "maxSize c1 = maxSize c" "ttl c1 = ttl c"
    by blast
  from Cons.IH[OF c1(2)] obtain c2 rs L2 E2 where c2:
    "run c1 xs = Inr (c2, rs)" "cache_inv c2 L2 E2" "maxSize c2 = maxSize c1" "ttl c2 = ttl c1"
    by blast
  have "run c (x # xs) = Inr (c2, r # rs)"
    by (simp add: c1(1) c2(1))
  then show ?case
    using c2(2,3,4) c1(3,4) by (intro exI[of _ c2] exI[of _ "r # rs"] exI[of _ L2] exI[of _ E2]) simp
qed

lemma walk_chain:
  "chain (fld nxt h) P (x # xs @ [tail]) \<Longrightarrow> tail \<notin> set xs \<Longrightarrow> length xs < fuel
     \<Longrightarrow> walk nxt h fuel (nxt (h ! x)) = Some xs"
proof (induction xs arbitrary: x fuel)
  case Nil
  then obtain n where "fuel = Suc n" by (cases fuel) auto
  then show ?case using Nil by (simp add: fld_Some)
next
  case (Cons y ys)
  then obtain n where n: "fuel = Suc n" by (cases fuel) auto
  have c: "fld nxt h x = Some (Some y)" "chain (fld nxt h) P (y # ys @ [tail])"
    using Cons.prems(1) by simp_all
  have yl: "y < length h"
    using c(2) by (cases ys) (auto simp: fld_Some)
  have "walk nxt h n (nxt (h ! y)) = Some ys"
    using Cons.IH[OF c(2)] Cons.prems n by simp
  then show ?case
    using c(1) yl Cons.prems(2) n by (simp add: fld_Some)
qed

lemma distinct_length_bound:
  assumes "distinct L" "\<forall>a\<in>set L. a < n" "head \<notin> set L" "tail \<notin> set L" "Suc 0 < n"
  shows "length L < n"
proof -
  have "set L \<subseteq> {2..<n}"
  proof
    fix a assume a: "a \<in> set L"
    then have "a \<noteq> 0" "a \<noteq> Suc 0" "a < n"
      using assms by metis+
    then show "a \<in> {2..<n}" by simp
  qed
  then have "card (set L) \<le> card {2..<n}"
    by (intro card_mono) simp_all
  then show ?thesis
    using assms(1,5) by (simp add: distinct_card)
qed

lemma well_formed_walk:
  assumes w: "well_formed c L E"
  shows "lruList c = Some L" and "expList c = Some E"
proof -
  let ?h = "mem c"
  have lk: "lists_ok ?h L E"
    using w by (simp add: well_formed_def)
  have dL: "distinct L" and dE: "distinct E" and sE: "set E = set L"
    and hL: "head \<notin> set L" and tL: "tail \<notin> set L"
    and cL: "chain (fld lruNext ?h) (fld lruPrev ?h) (head # L @ [tail])"
    and cE: "chain (fld expNext ?h) (fld expPrev ?h) (head # E @ [tail])"
    using lk unfolding lists_ok_def by blast+
  have s: "Suc 0 < length ?h"
    using lists_ok_sentinels[OF lk] .
  then have ne: "?h \<noteq> []" by auto
  have lL: "length L < length ?h"
    using distinct_length_bound[OF dL _ hL tL s] lists_ok_lt[OF lk] by blast
  have lE: "length E < length ?h"
    using distinct_length_bound[OF dE _ _ _ s] lists_ok_lt[OF lk] sE hL tL by blast
  show "lruList c = Some L"
    using walk_chain[OF cL tL lL] ne by (simp add: lruList_def)
  show "expList c = Some E"
    using walk_chain[OF cE _ lE] ne tL sE by (simp add: expList_def)
qed

lemma session_inv:
  assumes "0 \<le> ms" "0 \<le> tt"
  shows "\<exists>c rs L E. session ms tt calls = Inr (c, rs) \<and> cache_inv c L E
     \<and> maxSize c = ms \<and> ttl c = tt"
proof -
  obtain c0 where c0: "New ms tt = Inr c0"
    using assms by (auto simp: New_def)
  have i0: "cache_inv c0 [] []" "maxSize c0 = ms" "ttl c0 = tt"
    using New_inv[OF c0] by simp_all
  from run_inv[OF i0(1), of calls] obtain c rs L E where
    "run c0 calls = Inr (c, rs)" "cache_inv c L E" "maxSize c = maxSize c0" "ttl c = ttl c0"
    by blast
  then show ?thesis
    using c0 i0 by (intro exI[of _ c] exI[of _ rs] exI[of _ L] exI[of _ E]) (simp add: session_def)
qed

lemma session_reach:
  assumes "session ms tt calls = Inr (c, rs)"
  shows "\<exists>L E. cache_inv c L E \<and> maxSize c = ms \<and> ttl c = tt"
proof -
  have "0 \<le> ms" "0 \<le> tt"
    using assms by (auto simp: session_def New_def split: if_splits)
  from session_inv[OF this, of calls] show ?thesis
    using assms by auto
qed

section \<open>Consequences for single operations and runs\<close>

lemma reach_lists:
  assumes s: "session ms tt calls = Inr (c, rs)"
    and L: "lruList c = Some L" and E: "expList c = Some E"
  shows "cache_inv c L E \<and> maxSize c = ms \<and> ttl c = tt"
proof -
  from session_reach[OF s] obtain L0 E0 where i: "cache_inv c L0 E0" "maxSize c = ms" "ttl c = tt"
    by blast
  have w: "well_formed c L0 E0"
    using i(1) by (simp add: cache_inv_def)
  have "L0 = L" "E0 = E"
    using well_formed_walk[OF w] L E by simp_all
  then show ?thesis
    using i by simp
qed

lemma inv_index_iff:
  assumes w: "well_formed c L E"
  shows "map_of (m c) k = Some p \<longleftrightarrow> (\<exists>a\<in>set L. p = Some a \<and> key (mem c ! a) = k)"
proof -
  have "\<And>a. a \<in> set L \<Longrightarrow> (fld key (mem c) a = Some k) = (key (mem c ! a) = k)"
    using well_formed_lt[OF w] by (simp add: fld_def)
  then show ?thesis
    using well_formed_index[OF w, of k p] by blast
qed

lemma delist_fails_iff:
  "delist c p = Inl CannotDelist \<longleftrightarrow> p = None \<or> p = Some head \<or> p = Some tail"
  by (auto simp: delist_def bindE_def deref_def store_def split: sum.splits option.splits if_splits)

lemma inv_len: "cache_inv c L E \<Longrightarrow> Len c = int (length L)"
  using well_formed_len[of c L E] by (simp add: cache_inv_def)

lemma Delete_reach:
  assumes i: "cache_inv c L E" and k: "map_of (m c) k = Some p"
  shows "\<exists>b c'. p = Some b \<and> b \<in> set L \<and> key (mem c ! b) = k
     \<and> Delete c k = Inr (c', True)
     \<and> cache_inv c' (remove1 b L) (remove1 b E)
     \<and> map_of (m c') = (map_of (m c))(k := None) \<and> Len c' = Len c - 1
     \<and> (\<forall>now. Get c' now k = Inr (c', [], False))"
proof -
  have w: "well_formed c L E"
    using i by (simp add: cache_inv_def)
  from well_formed_index_Some[OF w k] obtain b where b: "p = Some b" "b \<in> set L" "key (mem c ! b) = k"
    by blast
  have k': "map_of (m c) k = Some (Some b)"
    using k b by simp
  from Delete_present[OF w k'] obtain c' where c':
    "Delete c k = Inr (c', True)" "well_formed c' (remove1 b L) (remove1 b E)"
    "same_data (mem c) (mem c')" "maxSize c' = maxSize c" "ttl c' = ttl c"
    "map_of (m c') = (map_of (m c))(k := None)"
    by blast
  have i': "cache_inv c' (remove1 b L) (remove1 b E)"
    using inv_shrink[OF i c'(2) set_remove1_subset _ c'(3,4,5)]
    by (simp add: length_remove1)
  have "Len c' = Len c - 1"
    using inv_len[OF i] inv_len[OF i'] length_remove1_in[OF b(2)] by simp
  moreover have "\<forall>now. Get c' now k = Inr (c', [], False)"
    using Get_absent[of c' k] c'(6) by simp
  ultimately show ?thesis
    using b c'(1,6) i' by blast
qed

lemma Put_reach:
  fixes c :: lruCache and k :: string and now' :: nat and L E :: "nat list"
  assumes i: "cache_inv c L E"
  defines "a \<equiv> length (mem c)"
    and "L1 \<equiv> unlinked (map_of (m c) k) L"
    and "E1 \<equiv> unlinked (map_of (m c) k) E"
  defines "vic \<equiv> victim (mem c) L1 E1 now'"
  shows "\<exists>c'. Put c now now' k v = Inr c'
     \<and> length (mem c') = Suc a
     \<and> fld key (mem c') = (fld key (mem c))(a \<mapsto> k)
     \<and> fld val (mem c') = (fld val (mem c))(a \<mapsto> v)
     \<and> fld expiry (mem c') = (fld expiry (mem c))(a \<mapsto>
           (if ttl c > 0 then now + nat (ttl c) else 0))
     \<and> maxSize c' = maxSize c \<and> ttl c' = ttl c
     \<and> (if evicts c (Suc (length L1))
         then vic \<in> set L1 \<and> cache_inv c' (a # remove1 vic L1) (a # remove1 vic E1)
            \<and> map_of (m c') = ((map_of (m c))(k \<mapsto> Some a))(key (mem c ! vic) := None)
         else cache_inv c' (a # L1) (a # E1) \<and> map_of (m c') = (map_of (m c))(k \<mapsto> Some a))"
proof -
  have w: "well_formed c L E"
    using i by (simp add: cache_inv_def)
  from Put_ok[OF w, of now now' k v] obtain c' where c':
     "Put c now now' k v = Inr c'"
     "length (mem c') = Suc a"
     "fld key (mem c') = (fld key (mem c))(a \<mapsto> k)"
     "fld val (mem c') = (fld val (mem c))(a \<mapsto> v)"
     "fld expiry (mem c') = (fld expiry (mem c))(a \<mapsto>
           (if ttl c > 0 then now + nat (ttl c) else 0))"
     "maxSize c' = maxSize c" "ttl c' = ttl c"
     "if evicts c (Suc (length L1))
         then vic \<in> set L1 \<and> well_formed c' (a # remove1 vic L1) (a # remove1 vic E1)
            \<and> map_of (m c') = ((map_of (m c))(k \<mapsto> Some a))(key (mem c ! vic) := None)
         else well_formed c' (a # L1) (a # E1) \<and> map_of (m c') = (map_of (m c))(k \<mapsto> Some a)"
    unfolding a_def L1_def E1_def vic_def by blast
  have l1: "length L1 \<le> length L" and s1: "set L1 \<subseteq> set L"
    unfolding L1_def using unlinked_length unlinked_set by blast+
  have bound: "0 < maxSize c \<longrightarrow> int (length L) \<le> maxSize c"
    using i by (simp add: cache_inv_def)
  have x: "fld expiry (mem c') = (fld expiry (mem c))(length (mem c) \<mapsto>
           (if ttl c > 0 then now + nat (ttl c) else 0))"
    using c'(5) by (simp add: a_def)
  show ?thesis
  proof (cases "evicts c (Suc (length L1))")
    case True
    then have v: "vic \<in> set L1" and w': "well_formed c' (a # remove1 vic L1) (a # remove1 vic E1)"
      and mm: "map_of (m c') = ((map_of (m c))(k \<mapsto> Some a))(key (mem c ! vic) := None)"
      using c'(8) by simp_all
    have "length (a # remove1 vic L1) = length L1"
      using v by (rule length_remove1_in')
    then have l: "0 < maxSize c \<longrightarrow> int (length (a # remove1 vic L1)) \<le> maxSize c"
      using l1 bound by (simp only:) linarith
    have s: "set (a # remove1 vic L1) \<subseteq> insert (length (mem c)) (set L)"
      using s1 set_remove1_subset[of vic L1] by (auto simp: a_def)
    have "cache_inv c' (a # remove1 vic L1) (a # remove1 vic E1)"
      using inv_grow[OF i w' s x c'(6) c'(7) l] .
    then show ?thesis
      using True c'(1-7) v mm by (intro exI[of _ c']) simp
  next
    case False
    then have w': "well_formed c' (a # L1) (a # E1)"
      and mm: "map_of (m c') = (map_of (m c))(k \<mapsto> Some a)"
      using c'(8) by simp_all
    have l: "0 < maxSize c \<longrightarrow> int (length (a # L1)) \<le> maxSize c"
      using False by (auto simp: evicts_def)
    have s: "set (a # L1) \<subseteq> insert (length (mem c)) (set L)"
      using s1 by (auto simp: a_def)
    have "cache_inv c' (a # L1) (a # E1)"
      using inv_grow[OF i w' s x c'(6) c'(7) l] .
    then show ?thesis
      using False c'(1-7) mm by (intro exI[of _ c']) simp
  qed
qed

lemma inv_lists: "cache_inv c L E \<Longrightarrow> lruList c = Some L \<and> expList c = Some E"
  using well_formed_walk[of c L E] by (simp add: cache_inv_def)

lemma inv_fresh: "cache_inv c L E \<Longrightarrow> length (mem c) \<notin> set L"
  using well_formed_lt[of c L E "length (mem c)"] by (auto simp: cache_inv_def)

lemma Put_replace:
  assumes i: "cache_inv c L E" and k: "map_of (m c) k = Some p"
  shows "\<exists>b c'. p = Some b \<and> b \<in> set L \<and> key (mem c ! b) = k
     \<and> Put c now now' k v = Inr c'
     \<and> cache_inv c' (length (mem c) # remove1 b L) (length (mem c) # remove1 b E)
     \<and> map_of (m c') = (map_of (m c))(k \<mapsto> Some (length (mem c)))
     \<and> length (mem c') = Suc (length (mem c))
     \<and> key (mem c' ! length (mem c)) = k \<and> val (mem c' ! length (mem c)) = v
     \<and> expiry (mem c' ! length (mem c)) = (if ttl c > 0 then now + nat (ttl c) else 0)
     \<and> maxSize c' = maxSize c \<and> ttl c' = ttl c
     \<and> Len c' = Len c"
proof -
  have w: "well_formed c L E"
    using i by (simp add: cache_inv_def)
  from well_formed_index_Some[OF w k] obtain b where b: "p = Some b" "b \<in> set L"
     "key (mem c ! b) = k"
    by blast
  have u: "unlinked (map_of (m c) k) L = remove1 b L" "unlinked (map_of (m c) k) E = remove1 b E"
    using k b by (simp_all add: unlinked_def)
  have "length (b # remove1 b L) = length L"
    using length_remove1_in[OF b(2)] .
  then have sl: "Suc (length (remove1 b L)) = length L"
    by simp
  have ne: "\<not> evicts c (Suc (length (remove1 b L)))"
    using i unfolding sl by (auto simp: cache_inv_def evicts_def)
  let ?a = "length (mem c)"
  from Put_reach[OF i, of now now' k v] obtain c' where c':
     "Put c now now' k v = Inr c'"
     "length (mem c') = Suc ?a"
     "fld key (mem c') = (fld key (mem c))(?a \<mapsto> k)"
     "fld val (mem c') = (fld val (mem c))(?a \<mapsto> v)"
     "fld expiry (mem c') = (fld expiry (mem c))(?a \<mapsto>
           (if ttl c > 0 then now + nat (ttl c) else 0))"
     "maxSize c' = maxSize c" "ttl c' = ttl c"
     "cache_inv c' (?a # remove1 b L) (?a # remove1 b E)"
     "map_of (m c') = (map_of (m c))(k \<mapsto> Some ?a)"
    unfolding u using ne by auto
  have "Len c' = Len c"
    using inv_len[OF i] inv_len[OF c'(8)] sl by simp
  then show ?thesis
    using b c'(1,2,6,7,8,9) fld_upd_nth_same[OF c'(3)] fld_upd_nth_same[OF c'(4)]
      fld_upd_nth_same[OF c'(5)]
    by (intro exI[of _ b] exI[of _ c']) simp
qed

lemma Put_fresh:
  assumes i: "cache_inv c L E" and k: "map_of (m c) k = None"
  shows "\<exists>c'. Put c now now' k v = Inr c'
     \<and> length (mem c') = Suc (length (mem c))
     \<and> fld key (mem c') = (fld key (mem c))(length (mem c) \<mapsto> k)
     \<and> fld val (mem c') = (fld val (mem c))(length (mem c) \<mapsto> v)
     \<and> fld expiry (mem c') = (fld expiry (mem c))(length (mem c) \<mapsto>
           (if ttl c > 0 then now + nat (ttl c) else 0))
     \<and> maxSize c' = maxSize c \<and> ttl c' = ttl c
     \<and> (if 0 < maxSize c \<and> Len c = maxSize c
         then L \<noteq> [] \<and> E \<noteq> [] \<and> victim (mem c) L E now' \<in> set L
            \<and> cache_inv c' (length (mem c) # remove1 (victim (mem c) L E now') L)
                 (length (mem c) # remove1 (victim (mem c) L E now') E)
            \<and> map_of (m c') = ((map_of (m c))(k \<mapsto> Some (length (mem c))))
                 (key (mem c ! victim (mem c) L E now') := None)
            \<and> Len c' = Len c
         else cache_inv c' (length (mem c) # L) (length (mem c) # E)
            \<and> map_of (m c') = (map_of (m c))(k \<mapsto> Some (length (mem c)))
            \<and> Len c' = Len c + 1)"
proof -
  have u: "unlinked (map_of (m c) k) L = L" "unlinked (map_of (m c) k) E = E"
    using k by (simp_all add: unlinked_def)
  have len: "Len c = int (length L)"
    using inv_len[OF i] .
  have ev: "evicts c (Suc (length L)) \<longleftrightarrow> 0 < maxSize c \<and> Len c = maxSize c"
    using i by (auto simp: evicts_def cache_inv_def len)
  let ?a = "length (mem c)"
  let ?vic = "victim (mem c) L E now'"
  from Put_reach[OF i, of now now' k v] obtain c' where c':
     "Put c now now' k v = Inr c'"
     "length (mem c') = Suc ?a"
     "fld key (mem c') = (fld key (mem c))(?a \<mapsto> k)"
     "fld val (mem c') = (fld val (mem c))(?a \<mapsto> v)"
     "fld expiry (mem c') = (fld expiry (mem c))(?a \<mapsto>
           (if ttl c > 0 then now + nat (ttl c) else 0))"
     "maxSize c' = maxSize c" "ttl c' = ttl c"
     "if evicts c (Suc (length L))
         then ?vic \<in> set L \<and> cache_inv c' (?a # remove1 ?vic L) (?a # remove1 ?vic E)
            \<and> map_of (m c') = ((map_of (m c))(k \<mapsto> Some ?a))(key (mem c ! ?vic) := None)
         else cache_inv c' (?a # L) (?a # E) \<and> map_of (m c') = (map_of (m c))(k \<mapsto> Some ?a)"
    unfolding u by blast
  show ?thesis
  proof (cases "0 < maxSize c \<and> Len c = maxSize c")
    case True
    then have e: "evicts c (Suc (length L))"
      using ev by simp
    then have v: "?vic \<in> set L"
      and i': "cache_inv c' (?a # remove1 ?vic L) (?a # remove1 ?vic E)"
      and mm: "map_of (m c') = ((map_of (m c))(k \<mapsto> Some ?a))(key (mem c ! ?vic) := None)"
      using c'(8) by simp_all
    have ne: "L \<noteq> []"
      using v by auto
    have "set E = set L"
      using i by (simp add: cache_inv_def well_formed_def lists_ok_def)
    then have neE: "E \<noteq> []"
      using ne by auto
    have "Len c' = Len c"
      using inv_len[OF i'] len length_remove1_in'[OF v, of ?a] by simp
    then show ?thesis
      using True c'(1-7) v i' mm ne neE by (intro exI[of _ c']) simp
  next
    case False
    then have e: "\<not> evicts c (Suc (length L))"
      using ev by simp
    then have i': "cache_inv c' (?a # L) (?a # E)"
      and mm: "map_of (m c') = (map_of (m c))(k \<mapsto> Some ?a)"
      using c'(8) by simp_all
    have "Len c' = Len c + 1"
      using inv_len[OF i'] len by simp
    then show ?thesis
      using False c'(1-7) i' mm by (intro exI[of _ c']) simp
  qed
qed

lemma inv_not_expired:
  assumes i: "cache_inv c L E" and t: "ttl c = 0" and b: "b \<in> set L"
  shows "\<not> expired_at (mem c) b now"
proof -
  have "(0 < expiry (mem c ! b)) = (0 < ttl c)"
    using i b by (simp add: cache_inv_def)
  then show ?thesis
    using t by (simp add: expired_at_def)
qed

lemma Get_reach_live:
  assumes i: "cache_inv c L E" and k: "map_of (m c) k = Some p"
    and x: "IsExpired (mem c) p now \<noteq> Inr True"
  shows "\<exists>b c'. p = Some b \<and> b \<in> set L \<and> key (mem c ! b) = k
     \<and> Get c now k = Inr (c', val (mem c ! b), True)
     \<and> cache_inv c' (b # remove1 b L) E \<and> same_data (mem c) (mem c') \<and> m c' = m c
     \<and> Len c' = Len c"
proof -
  have w: "well_formed c L E"
    using i by (simp add: cache_inv_def)
  from well_formed_index_Some[OF w k] obtain b where b: "p = Some b" "b \<in> set L"
    "b < length (mem c)" "key (mem c ! b) = k"
    by blast
  have k': "map_of (m c) k = Some (Some b)"
    using k b by simp
  have nx: "\<not> expired_at (mem c) b now"
    using x IsExpired_Some[OF b(3), of now] b(1) by auto
  from Get_live[OF w k' nx] obtain c' where c':
    "Get c now k = Inr (c', val (mem c ! b), True)" "well_formed c' (b # remove1 b L) E"
    "same_data (mem c) (mem c')" "maxSize c' = maxSize c" "ttl c' = ttl c" "m c' = m c"
    by blast
  have s: "set (b # remove1 b L) \<subseteq> set L"
    using b(2) set_remove1_subset[of b L] by auto
  have l: "length (b # remove1 b L) \<le> length L"
    using length_remove1_in[OF b(2)] by simp
  have i': "cache_inv c' (b # remove1 b L) E"
    using inv_shrink[OF i c'(2) s l c'(3,4,5)] .
  have "Len c' = Len c"
    by (simp add: Len_def c'(6))
  then show ?thesis
    using b c'(1,3,6) i' by blast
qed

lemma Get_reach_expired:
  assumes i: "cache_inv c L E" and k: "map_of (m c) k = Some p"
    and x: "IsExpired (mem c) p now = Inr True"
  shows "\<exists>b c'. p = Some b \<and> b \<in> set L \<and> key (mem c ! b) = k
     \<and> Get c now k = Inr (c', [], False)
     \<and> cache_inv c' (remove1 b L) (remove1 b E) \<and> same_data (mem c) (mem c')
     \<and> map_of (m c') = (map_of (m c))(k := None)
     \<and> Len c' = Len c - 1"
proof -
  have w: "well_formed c L E"
    using i by (simp add: cache_inv_def)
  from well_formed_index_Some[OF w k] obtain b where b: "p = Some b" "b \<in> set L"
    "b < length (mem c)" "key (mem c ! b) = k"
    by blast
  have k': "map_of (m c) k = Some (Some b)"
    using k b by simp
  have nx: "expired_at (mem c) b now"
    using x IsExpired_Some[OF b(3), of now] b(1) by auto
  from Get_expired[OF w k' nx] obtain c' where c':
    "Get c now k = Inr (c', [], False)" "well_formed c' (remove1 b L) (remove1 b E)"
    "same_data (mem c) (mem c')" "maxSize c' = maxSize c" "ttl c' = ttl c"
    "map_of (m c') = (map_of (m c))(k := None)"
    by blast
  have i': "cache_inv c' (remove1 b L) (remove1 b E)"
    using inv_shrink[OF i c'(2) set_remove1_subset _ c'(3,4,5)]
    by (simp add: length_remove1)
  have "Len c' = Len c - 1"
    using inv_len[OF i] inv_len[OF i'] length_remove1_in[OF b(2)] by simp
  then show ?thesis
    using b c'(1,3,6) i' by blast
qed

lemma gone_remove1: "b \<in> set L \<Longrightarrow> b \<notin> set (remove1 y L) \<Longrightarrow> b = y"
  by (metis in_set_remove1)

lemma step_removes:
  assumes i: "cache_inv c L E" and x: "exec c x = Inr (c', r)"
    and L': "lruList c' = Some L'" and b: "b \<in> set L" "b \<notin> set L'"
  shows "case x of
       CallGet t k' \<Rightarrow> k' = key (mem c ! b) \<and> IsExpired (mem c) (Some b) t = Inr True
     | CallDelete k' \<Rightarrow> k' = key (mem c ! b)
     | CallPut t t' k' v \<Rightarrow> k' = key (mem c ! b)
          \<or> (map_of (m c) k' = None \<and> 0 < maxSize c \<and> Len c = maxSize c \<and> E \<noteq> []
              \<and> b = (if IsExpired (mem c) (Some (last E)) t' = Inr True then last E else last L))
     | CallLen \<Rightarrow> False"
proof (cases x)
  case (CallPut t t' k v)
  have P: "Put c t t' k v = Inr c'"
    using x CallPut by (auto simp: bindE_eq_Inr)
  let ?a = "length (mem c)"
  show ?thesis
  proof (cases "map_of (m c) k")
    case None
    let ?vic = "victim (mem c) L E t'"
    from Put_fresh[OF i None, of t t' v] obtain c1 where c1:
      "Put c t t' k v = Inr c1"
      "if 0 < maxSize c \<and> Len c = maxSize c
         then L \<noteq> [] \<and> E \<noteq> [] \<and> ?vic \<in> set L
            \<and> cache_inv c1 (?a # remove1 ?vic L) (?a # remove1 ?vic E)
            \<and> map_of (m c1) = ((map_of (m c))(k \<mapsto> Some ?a))(key (mem c ! ?vic) := None)
            \<and> Len c1 = Len c
         else cache_inv c1 (?a # L) (?a # E)
            \<and> map_of (m c1) = (map_of (m c))(k \<mapsto> Some ?a)
            \<and> Len c1 = Len c + 1"
      by blast
    have e: "c1 = c'"
      using P c1(1) by simp
    show ?thesis
    proof (cases "0 < maxSize c \<and> Len c = maxSize c")
      case True
      then have ne: "E \<noteq> []" and i': "cache_inv c' (?a # remove1 ?vic L) (?a # remove1 ?vic E)"
        using c1(2) e by simp_all
      have "L' = ?a # remove1 ?vic L"
        using inv_lists[OF i'] L' by simp
      then have bv: "b = ?vic"
        using b gone_remove1[of b L ?vic] by simp
      have "set E = set L"
        using i by (simp add: cache_inv_def well_formed_def lists_ok_def)
      then have "last E \<in> set L"
        using ne last_in_set by blast
      then have "last E < length (mem c)"
        using well_formed_lt[of c L E] i by (simp add: cache_inv_def)
      then have "IsExpired (mem c) (Some (last E)) t' = Inr (expired_at (mem c) (last E) t')"
        by (rule IsExpired_Some)
      then have "?vic = (if IsExpired (mem c) (Some (last E)) t' = Inr True then last E else last L)"
        by (simp add: victim_def)
      then show ?thesis
        using CallPut None True ne bv by simp
    next
      case False
      then have i': "cache_inv c' (?a # L) (?a # E)"
        using c1(2) e by (auto split: if_splits)
      have "L' = ?a # L"
        using inv_lists[OF i'] L' by simp
      then show ?thesis
        using b by simp
    qed
  next
    case (Some p)
    from Put_replace[OF i Some, of t t' v] obtain b0 c1 where c1:
      "b0 \<in> set L" "key (mem c ! b0) = k" "Put c t t' k v = Inr c1"
      "cache_inv c1 (?a # remove1 b0 L) (?a # remove1 b0 E)"
      by blast
    have e: "c1 = c'"
      using P c1(3) by simp
    have "L' = ?a # remove1 b0 L"
      using inv_lists[OF c1(4)] L' e by simp
    then have "b = b0"
      using b gone_remove1[of b L b0] by simp
    then show ?thesis
      using CallPut c1(2) by simp
  qed
next
  case (CallGet t k)
  obtain v ok where G: "Get c t k = Inr (c', v, ok)"
    using x CallGet by (auto simp: bindE_eq_Inr)
  show ?thesis
  proof (cases "map_of (m c) k")
    case None
    then have "c' = c"
      using G Get_absent[OF None, of t] by simp
    then have "L' = L"
      using inv_lists[OF i] L' by simp
    then show ?thesis
      using b by simp
  next
    case (Some p)
    show ?thesis
    proof (cases "IsExpired (mem c) p t = Inr True")
      case True
      from Get_reach_expired[OF i Some True] obtain b0 c1 where c1:
        "p = Some b0" "key (mem c ! b0) = k" "Get c t k = Inr (c1, [], False)"
        "cache_inv c1 (remove1 b0 L) (remove1 b0 E)"
        by blast
      have e: "c1 = c'"
        using G c1(3) by simp
      have "L' = remove1 b0 L"
        using inv_lists[OF c1(4)] L' e by simp
      then have "b = b0"
        using b gone_remove1[of b L b0] by simp
      then show ?thesis
        using CallGet c1(1,2) True by simp
    next
      case False
      from Get_reach_live[OF i Some False] obtain b0 c1 where c1:
        "b0 \<in> set L" "Get c t k = Inr (c1, val (mem c ! b0), True)"
        "cache_inv c1 (b0 # remove1 b0 L) E"
        by blast
      have e: "c1 = c'"
        using G c1(2) by simp
      have "L' = b0 # remove1 b0 L"
        using inv_lists[OF c1(3)] L' e by simp
      then have "b \<noteq> b0" "b \<notin> set (remove1 b0 L)"
        using b by auto
      then show ?thesis
        using b(1) gone_remove1[of b L b0] by simp
    qed
  qed
next
  case (CallDelete k)
  obtain ok where D: "Delete c k = Inr (c', ok)"
    using x CallDelete by (auto simp: bindE_eq_Inr)
  show ?thesis
  proof (cases "map_of (m c) k")
    case None
    then have "c' = c"
      using D Delete_absent[OF None] by simp
    then have "L' = L"
      using inv_lists[OF i] L' by simp
    then show ?thesis
      using b by simp
  next
    case (Some p)
    from Delete_reach[OF i Some] obtain b0 c1 where c1:
      "key (mem c ! b0) = k" "Delete c k = Inr (c1, True)"
      "cache_inv c1 (remove1 b0 L) (remove1 b0 E)"
      by blast
    have e: "c1 = c'"
      using D c1(2) by simp
    have "L' = remove1 b0 L"
      using inv_lists[OF c1(3)] L' e by simp
    then have "b = b0"
      using b gone_remove1[of b L b0] by simp
    then show ?thesis
      using CallDelete c1(1) by simp
  qed
next
  case CallLen
  then have "c' = c"
    using x by simp
  then have "L' = L"
    using inv_lists[OF i] L' by simp
  then show ?thesis
    using b by simp
qed

lemma same_data_len: "same_data h h' \<Longrightarrow> length h' = length h"
  by (simp add: same_data_def)

lemma inv_lt: "cache_inv c L E \<Longrightarrow> a \<in> set L \<Longrightarrow> a < length (mem c)"
  using well_formed_lt[of c L E a] by (simp add: cache_inv_def)

lemma shrink_bound:
  assumes i: "cache_inv c L E" and bd: "\<forall>a\<in>set L. expiry (mem c ! a) \<le> B"
    and s: "set L' \<subseteq> set L" and sd: "same_data (mem c) (mem c')"
  shows "\<forall>a\<in>set L'. expiry (mem c' ! a) \<le> B"
proof
  fix a assume a: "a \<in> set L'"
  then have aL: "a \<in> set L" using s by blast
  have "expiry (mem c' ! a) = expiry (mem c ! a)"
    using same_data_expiry[OF sd inv_lt[OF i aL]] .
  then show "expiry (mem c' ! a) \<le> B"
    using bd aL by simp
qed

lemma Put_bound:
  assumes i: "cache_inv c L E" and bd: "\<forall>a\<in>set L. expiry (mem c ! a) \<le> B"
    and st: "now + nat (ttl c) \<le> B"
    and P: "Put c now now' k v = Inr c'" and i': "cache_inv c' L' E'"
  shows "\<forall>a\<in>set L'. expiry (mem c' ! a) \<le> B"
proof -
  let ?a = "length (mem c)"
  let ?L1 = "unlinked (map_of (m c) k) L" and ?E1 = "unlinked (map_of (m c) k) E"
  let ?vic = "victim (mem c) ?L1 ?E1 now'"
  from Put_reach[OF i, of now now' k v] P obtain
    x: "fld expiry (mem c') = (fld expiry (mem c))(?a \<mapsto>
           (if ttl c > 0 then now + nat (ttl c) else 0))"
    and d: "if evicts c (Suc (length ?L1))
         then cache_inv c' (?a # remove1 ?vic ?L1) (?a # remove1 ?vic ?E1)
         else cache_inv c' (?a # ?L1) (?a # ?E1)"
    by (auto split: if_splits)
  have "L' = ?a # remove1 ?vic ?L1 \<or> L' = ?a # ?L1"
    using d inv_lists[OF i'] inv_lists[of c' "?a # remove1 ?vic ?L1" "?a # remove1 ?vic ?E1"]
      inv_lists[of c' "?a # ?L1" "?a # ?E1"]
    by (auto split: if_splits)
  then have sub: "set L' \<subseteq> insert ?a (set L)"
    using unlinked_set[of "map_of (m c) k" L] set_remove1_subset[of ?vic ?L1] by auto
  show ?thesis
  proof
    fix a assume a: "a \<in> set L'"
    show "expiry (mem c' ! a) \<le> B"
    proof (cases "a = ?a")
      case True
      then show ?thesis
        using fld_upd_nth_same[OF x] st by simp
    next
      case False
      then have aL: "a \<in> set L" using a sub by blast
      have "expiry (mem c' ! a) = expiry (mem c ! a)"
        using fld_upd_nth_other[OF x inv_lt[OF i aL]] .
      then show ?thesis
        using bd aL by simp
    qed
  qed
qed

lemma Get_bound:
  assumes i: "cache_inv c L E" and bd: "\<forall>a\<in>set L. expiry (mem c ! a) \<le> B"
    and G: "Get c now k = Inr (c', v, ok)" and i': "cache_inv c' L' E'"
  shows "\<forall>a\<in>set L'. expiry (mem c' ! a) \<le> B"
proof (cases "map_of (m c) k")
  case None
  then have "c' = c"
    using G Get_absent[OF None, of now] by simp
  then have "L' = L"
    using inv_lists[OF i] inv_lists[OF i'] by simp
  then show ?thesis
    using bd \<open>c' = c\<close> by simp
next
  case (Some p)
  show ?thesis
  proof (cases "IsExpired (mem c) p now = Inr True")
    case True
    from Get_reach_expired[OF i Some True] G obtain b where
      "cache_inv c' (remove1 b L) (remove1 b E)" "same_data (mem c) (mem c')"
      by auto
    then have "L' = remove1 b L" "same_data (mem c) (mem c')"
      using inv_lists[OF i'] inv_lists[of c' "remove1 b L" "remove1 b E"] by simp_all
    then show ?thesis
      using shrink_bound[OF i bd _ \<open>same_data (mem c) (mem c')\<close>, of L']
        set_remove1_subset[of b L] by simp
  next
    case False
    from Get_reach_live[OF i Some False] G obtain b where b:
      "b \<in> set L" "cache_inv c' (b # remove1 b L) E" "same_data (mem c) (mem c')"
      by auto
    then have "L' = b # remove1 b L"
      using inv_lists[OF i'] inv_lists[of c' "b # remove1 b L" E] by simp
    then have "set L' \<subseteq> set L"
      using b(1) set_remove1_subset[of b L] by auto
    then show ?thesis
      using shrink_bound[OF i bd _ b(3)] by blast
  qed
qed

lemma Delete_bound:
  assumes i: "cache_inv c L E" and bd: "\<forall>a\<in>set L. expiry (mem c ! a) \<le> B"
    and D: "Delete c k = Inr (c', ok)" and i': "cache_inv c' L' E'"
  shows "\<forall>a\<in>set L'. expiry (mem c' ! a) \<le> B"
proof (cases "map_of (m c) k")
  case None
  then have "c' = c"
    using D Delete_absent[OF None] by simp
  then have "L' = L"
    using inv_lists[OF i] inv_lists[OF i'] by simp
  then show ?thesis
    using bd \<open>c' = c\<close> by simp
next
  case (Some p)
  have w: "well_formed c L E"
    using i by (simp add: cache_inv_def)
  from well_formed_index_Some[OF w Some] obtain b where b: "p = Some b"
    by blast
  from Delete_present[OF w Some[unfolded b]] D obtain
    w': "well_formed c' (remove1 b L) (remove1 b E)" and sd: "same_data (mem c) (mem c')"
    by auto
  have "L' = remove1 b L"
    using well_formed_walk(1)[OF w'] inv_lists[OF i'] by simp
  then show ?thesis
    using shrink_bound[OF i bd _ sd, of L'] set_remove1_subset[of b L] by simp
qed

lemma exec_bound:
  assumes i: "cache_inv c L E" and bd: "\<forall>a\<in>set L. expiry (mem c ! a) \<le> T + nat (ttl c)"
    and st: "stamped_by T x"
    and x: "exec c x = Inr (c', r)" and i': "cache_inv c' L' E'"
  shows "\<forall>a\<in>set L'. expiry (mem c' ! a) \<le> T + nat (ttl c)"
proof (cases x)
  case (CallPut now now' k v)
  have P: "Put c now now' k v = Inr c'"
    using x CallPut by (auto simp: bindE_eq_Inr)
  have "now + nat (ttl c) \<le> T + nat (ttl c)"
    using st CallPut by simp
  from Put_bound[OF i bd this P i'] show ?thesis .
next
  case (CallGet now k)
  obtain v ok where G: "Get c now k = Inr (c', v, ok)"
    using x CallGet by (auto simp: bindE_eq_Inr)
  from Get_bound[OF i bd G i'] show ?thesis .
next
  case (CallDelete k)
  obtain ok where D: "Delete c k = Inr (c', ok)"
    using x CallDelete by (auto simp: bindE_eq_Inr)
  from Delete_bound[OF i bd D i'] show ?thesis .
next
  case CallLen
  then have "c' = c"
    using x by simp
  then have "L' = L"
    using inv_lists[OF i] inv_lists[OF i'] by simp
  then show ?thesis
    using bd \<open>c' = c\<close> by simp
qed

lemma run_bound:
  "cache_inv c L E \<Longrightarrow> \<forall>a\<in>set L. expiry (mem c ! a) \<le> T + nat (ttl c)
     \<Longrightarrow> list_all (stamped_by T) xs \<Longrightarrow> run c xs = Inr (c', rs) \<Longrightarrow> cache_inv c' L' E'
     \<Longrightarrow> \<forall>a\<in>set L'. expiry (mem c' ! a) \<le> T + nat (ttl c)"
proof (induction xs arbitrary: c L E rs)
  case Nil
  then have "c' = c" by simp
  then have "L' = L"
    using inv_lists[OF Nil.prems(1)] inv_lists[OF Nil.prems(5)] by simp
  then show ?case
    using Nil.prems(2) \<open>c' = c\<close> by simp
next
  case (Cons x xs)
  from exec_inv[OF Cons.prems(1), of x] obtain c1 r L1 E1 where c1:
    "exec c x = Inr (c1, r)" "cache_inv c1 L1 E1" "ttl c1 = ttl c"
    by blast
  have b1: "\<forall>a\<in>set L1. expiry (mem c1 ! a) \<le> T + nat (ttl c1)"
    using exec_bound[OF Cons.prems(1,2) _ c1(1,2)] Cons.prems(3) c1(3) by simp
  obtain rs1 where r1: "run c1 xs = Inr (c', rs1)"
    using Cons.prems(4) c1(1) by (auto simp: bindE_eq_Inr)
  have "\<forall>a\<in>set L'. expiry (mem c' ! a) \<le> T + nat (ttl c1)"
    using Cons.IH[OF c1(2) b1 _ r1 Cons.prems(5)] Cons.prems(3) by simp
  then show ?case
    using c1(3) by simp
qed

lemma gets_purge:
  "cache_inv c L E \<Longrightarrow> 0 < ttl c \<Longrightarrow> \<forall>a\<in>set L. expiry (mem c ! a) \<le> B
     \<Longrightarrow> list_all (\<lambda>g. B < fst g) gets
     \<Longrightarrow> \<exists>c' L' E'. run c (map (\<lambda>g. CallGet (fst g) (snd g)) gets)
            = Inr (c', map (\<lambda>g. GetReply [] False) gets)
         \<and> cache_inv c' L' E'
         \<and> dom (map_of (m c')) = dom (map_of (m c)) - snd ` set gets"
proof (induction gets arbitrary: c L E)
  case Nil
  then show ?case
    by (intro exI[of _ c] exI[of _ L] exI[of _ E]) simp
next
  case (Cons g gets)
  obtain t k where g: "g = (t, k)" by (cases g)
  have late: "B < t" "list_all (\<lambda>g. B < fst g) gets"
    using Cons.prems(4) g by simp_all
  have "\<exists>c1 L1 E1. Get c t k = Inr (c1, [], False) \<and> cache_inv c1 L1 E1 \<and> ttl c1 = ttl c
     \<and> (\<forall>a\<in>set L1. expiry (mem c1 ! a) \<le> B)
     \<and> dom (map_of (m c1)) = dom (map_of (m c)) - {k}"
  proof (cases "map_of (m c) k")
    case None
    then have "dom (map_of (m c)) = dom (map_of (m c)) - {k}"
      by auto
    then show ?thesis
      using Get_absent[OF None, of t] Cons.prems(1,3) by blast
  next
    case (Some p)
    have w: "well_formed c L E"
      using Cons.prems(1) by (simp add: cache_inv_def)
    from well_formed_index_Some[OF w Some] obtain b where b: "p = Some b" "b \<in> set L"
      "b < length (mem c)"
      by blast
    have "0 < expiry (mem c ! b)"
      using Cons.prems(1,2) b(2) by (simp add: cache_inv_def)
    moreover have "expiry (mem c ! b) < t"
      using Cons.prems(3) b(2) late(1) by fastforce
    ultimately have "expired_at (mem c) b t"
      by (simp add: expired_at_def)
    then have x: "IsExpired (mem c) p t = Inr True"
      using IsExpired_Some[OF b(3), of t] b(1) by simp
    from Get_reach_expired[OF Cons.prems(1) Some x] obtain b0 c1 where c1:
      "Get c t k = Inr (c1, [], False)" "cache_inv c1 (remove1 b0 L) (remove1 b0 E)"
      "same_data (mem c) (mem c1)" "map_of (m c1) = (map_of (m c))(k := None)"
      by blast
    have bd: "\<forall>a\<in>set (remove1 b0 L). expiry (mem c1 ! a) \<le> B"
      using shrink_bound[OF Cons.prems(1,3) set_remove1_subset c1(3)] .
    have "ttl c1 = ttl c"
      using Get_inv[OF Cons.prems(1), of t k] c1(1) by auto
    moreover have "dom (map_of (m c1)) = dom (map_of (m c)) - {k}"
      by (simp add: c1(4))
    ultimately show ?thesis
      using c1(1,2) bd by blast
  qed
  then obtain c1 L1 E1 where c1: "Get c t k = Inr (c1, [], False)" "cache_inv c1 L1 E1"
     "ttl c1 = ttl c" "\<forall>a\<in>set L1. expiry (mem c1 ! a) \<le> B"
     "dom (map_of (m c1)) = dom (map_of (m c)) - {k}"
    by blast
  have t1: "0 < ttl c1"
    using Cons.prems(2) c1(3) by simp
  from Cons.IH[OF c1(2) t1 c1(4) late(2)] obtain c' L' E' where c':
    "run c1 (map (\<lambda>g. CallGet (fst g) (snd g)) gets) = Inr (c', map (\<lambda>g. GetReply [] False) gets)"
    "cache_inv c' L' E'"
    "dom (map_of (m c')) = dom (map_of (m c1)) - snd ` set gets"
    by blast
  have "run c (map (\<lambda>g. CallGet (fst g) (snd g)) (g # gets))
        = Inr (c', map (\<lambda>g. GetReply [] False) (g # gets))"
    by (simp add: g c1(1) c'(1))
  moreover have "dom (map_of (m c)) - {k} - snd ` set gets
       = dom (map_of (m c)) - insert k (snd ` set gets)"
    by blast
  then have "dom (map_of (m c')) = dom (map_of (m c)) - snd ` set (g # gets)"
    unfolding c'(3) c1(5) g by simp
  ultimately show ?case
    using c'(2) by blast
qed

section \<open>The claims\<close>

text \<open>
  C1. For every sequence of public operations on a cache constructed with
  \<open>maxSize > 0\<close>, every operation returns and the number of entries in the lookup index
  (the value of \<^verbatim>\<open>Len\<close>) is at most \<open>maxSize\<close> afterwards. The sequence is arbitrary, so
  the bound holds after each of its operations: every prefix of a sequence of calls is a
  sequence of calls.
\<close>

theorem C1_len_bounded:
  assumes "0 < maxSize0" and "0 \<le> ttl0"
  shows "\<exists>c rs. session maxSize0 ttl0 calls = Inr (c, rs) \<and> Len c \<le> maxSize0"
proof -
  from session_inv[of maxSize0 ttl0 calls] assms obtain c rs L E where c:
    "session maxSize0 ttl0 calls = Inr (c, rs)" "cache_inv c L E" "maxSize c = maxSize0"
    by auto
  have "Len c = int (length L)"
    using well_formed_len[of c L E] c(2) by (simp add: cache_inv_def)
  then have "Len c \<le> maxSize0"
    using c(2,3) assms(1) by (simp add: cache_inv_def)
  then show ?thesis
    using c(1) by blast
qed

theorem C1_len_bounded_witness:
  "\<exists>c rs. session 2 0 [CallPut 5 5 ''a'' ''1'', CallPut 6 6 ''b'' ''2'', CallGet 7 ''a'',
      CallPut 8 8 ''c'' ''3'', CallLen] = Inr (c, rs) \<and> Len c \<le> 2"
  using C1_len_bounded [of 2 0 "[CallPut 5 5 ''a'' ''1'', CallPut 6 6 ''b'' ''2'', CallGet 7 ''a'',
      CallPut 8 8 ''c'' ''3'', CallLen]"]
  by simp

text \<open>
  C3. After every public operation (any sequence of them, from \<^verbatim>\<open>New\<close>) both walks from
  the head sentinel reach the tail sentinel; the recency list and the age list hold the
  same entries, each exactly once; and the lookup index holds exactly these entries: a key
  is mapped to a pointer if and only if the pointer is the address of a listed entry that
  carries this key.
\<close>

theorem C3_index_and_lists_agree:
  assumes "0 \<le> maxSize0" and "0 \<le> ttl0"
  shows "\<exists>c rs L E. session maxSize0 ttl0 calls = Inr (c, rs)
     \<and> lruList c = Some L \<and> expList c = Some E
     \<and> distinct L \<and> distinct E \<and> set E = set L
     \<and> fst ` set (m c) = (\<lambda>a. key (mem c ! a)) ` set L
     \<and> (\<forall>k p. map_of (m c) k = Some p \<longleftrightarrow> (\<exists>a\<in>set L. p = Some a \<and> key (mem c ! a) = k))"
proof -
  from session_inv[OF assms, of calls] obtain c rs L E where c:
    "session maxSize0 ttl0 calls = Inr (c, rs)" "cache_inv c L E"
    by blast
  have w: "well_formed c L E"
    using c(2) by (simp add: cache_inv_def)
  have iff: "\<forall>k p. map_of (m c) k = Some p \<longleftrightarrow> (\<exists>a\<in>set L. p = Some a \<and> key (mem c ! a) = k)"
    using inv_index_iff[OF w] by blast
  have "fst ` set (m c) = (\<lambda>a. key (mem c ! a)) ` set L"
  proof (rule set_eqI)
    fix k
    have "k \<in> fst ` set (m c) \<longleftrightarrow> (\<exists>p. map_of (m c) k = Some p)"
      using map_of_eq_None_iff[of "m c" k] by auto
    also have "\<dots> \<longleftrightarrow> (\<exists>a\<in>set L. key (mem c ! a) = k)"
      using iff by blast
    finally show "k \<in> fst ` set (m c) \<longleftrightarrow> k \<in> (\<lambda>a. key (mem c ! a)) ` set L"
      by auto
  qed
  then show ?thesis
    using c(1) well_formed_walk[OF w] well_formed_distinct[OF w] iff
    by (intro exI[of _ c] exI[of _ rs] exI[of _ L] exI[of _ E]) simp
qed

theorem C3_index_and_lists_agree_witness:
  "\<exists>c rs L E. session 2 0 [CallPut 5 5 ''a'' ''1'', CallPut 6 6 ''b'' ''2'', CallGet 7 ''a'',
        CallPut 8 8 ''c'' ''3'', CallDelete ''a'', CallLen] = Inr (c, rs)
     \<and> lruList c = Some L \<and> expList c = Some E
     \<and> distinct L \<and> distinct E \<and> set E = set L
     \<and> fst ` set (m c) = (\<lambda>a. key (mem c ! a)) ` set L
     \<and> (\<forall>k p. map_of (m c) k = Some p \<longleftrightarrow> (\<exists>a\<in>set L. p = Some a \<and> key (mem c ! a) = k))"
  using C3_index_and_lists_agree [of 2 0 "[CallPut 5 5 ''a'' ''1'', CallPut 6 6 ''b'' ''2'',
        CallGet 7 ''a'', CallPut 8 8 ''c'' ''3'', CallDelete ''a'', CallLen]"]
  by simp

text \<open>
  C10. The failure branch of \<^verbatim>\<open>delist\<close> is taken exactly for nil and the two sentinels.
  No sequence of public operations reaches it: every run from \<^verbatim>\<open>New\<close> returns without a
  panic (so no call of \<^verbatim>\<open>delete\<close> made by \<^verbatim>\<open>Put\<close>, \<^verbatim>\<open>Get\<close>, \<^verbatim>\<open>Delete\<close> or \<^verbatim>\<open>trim\<close> failed on
  the way), and the index never contains nil, the head sentinel or the tail sentinel.
\<close>

theorem C10_delist_never_fails:
  assumes "0 \<le> maxSize0" and "0 \<le> ttl0"
  shows "\<exists>c rs. session maxSize0 ttl0 calls = Inr (c, rs)
     \<and> None \<notin> snd ` set (m c) \<and> Some head \<notin> snd ` set (m c) \<and> Some tail \<notin> snd ` set (m c)
     \<and> (\<forall>p. delist c p = Inl CannotDelist \<longleftrightarrow> p = None \<or> p = Some head \<or> p = Some tail)"
proof -
  from session_inv[OF assms, of calls] obtain c rs L E where c:
    "session maxSize0 ttl0 calls = Inr (c, rs)" "cache_inv c L E"
    by blast
  have w: "well_formed c L E"
    using c(2) by (simp add: cache_inv_def)
  have ht: "head \<notin> set L" "tail \<notin> set L"
    using w by (simp_all add: well_formed_def lists_ok_def)
  have d: "distinct (map fst (m c))"
    using w by (simp add: well_formed_def index_ok_def)
  have "\<And>p. p \<in> snd ` set (m c) \<Longrightarrow> \<exists>a\<in>set L. p = Some a"
  proof -
    fix p assume "p \<in> snd ` set (m c)"
    then obtain k where "(k, p) \<in> set (m c)" by auto
    then have "map_of (m c) k = Some p"
      using d by simp
    then show "\<exists>a\<in>set L. p = Some a"
      using inv_index_iff[OF w] by blast
  qed
  then have "None \<notin> snd ` set (m c) \<and> Some head \<notin> snd ` set (m c) \<and> Some tail \<notin> snd ` set (m c)"
    using ht by auto
  then show ?thesis
    using c(1) delist_fails_iff by blast
qed

theorem C10_delist_never_fails_witness:
  "\<exists>c rs. session 1 3 [CallPut 5 5 ''a'' ''1'', CallPut 6 60 ''b'' ''2'', CallGet 70 ''b'',
        CallDelete ''a'', CallDelete ''b''] = Inr (c, rs)
     \<and> None \<notin> snd ` set (m c) \<and> Some head \<notin> snd ` set (m c) \<and> Some tail \<notin> snd ` set (m c)
     \<and> (\<forall>p. delist c p = Inl CannotDelist \<longleftrightarrow> p = None \<or> p = Some head \<or> p = Some tail)"
  using C10_delist_never_fails [of 1 3 "[CallPut 5 5 ''a'' ''1'', CallPut 6 60 ''b'' ''2'',
        CallGet 70 ''b'', CallDelete ''a'', CallDelete ''b'']"]
  by simp

text \<open>
  C8. In every state that a sequence of public operations reaches, \<^verbatim>\<open>Delete\<close> on a key
  that the index does not hold returns false and leaves the whole cache as it is;
  \<^verbatim>\<open>Delete\<close> on a key that it holds returns true, whatever the expiry of the entry and
  without reading the clock, takes the entry out of both lists and out of the index,
  lowers \<^verbatim>\<open>Len\<close> by exactly 1, and a \<^verbatim>\<open>Get\<close> of the key afterwards, at any time, reports
  not-found.
\<close>

theorem C8_delete:
  assumes "0 \<le> maxSize0" and "0 \<le> ttl0"
  shows "\<exists>c rs L E. session maxSize0 ttl0 calls = Inr (c, rs)
     \<and> lruList c = Some L \<and> expList c = Some E
     \<and> (case map_of (m c) k of
           None \<Rightarrow> Delete c k = Inr (c, False)
         | Some p \<Rightarrow>
            (\<exists>b c'. p = Some b \<and> b \<in> set L \<and> key (mem c ! b) = k
               \<and> Delete c k = Inr (c', True)
               \<and> lruList c' = Some (remove1 b L) \<and> expList c' = Some (remove1 b E)
               \<and> map_of (m c') = (map_of (m c))(k := None)
               \<and> Len c' = Len c - 1
               \<and> (\<forall>now. Get c' now k = Inr (c', [], False))))"
proof -
  from session_inv[OF assms, of calls] obtain c rs L E where c:
    "session maxSize0 ttl0 calls = Inr (c, rs)" "cache_inv c L E"
    by blast
  have w: "well_formed c L E"
    using c(2) by (simp add: cache_inv_def)
  have "case map_of (m c) k of
           None \<Rightarrow> Delete c k = Inr (c, False)
         | Some p \<Rightarrow>
            (\<exists>b c'. p = Some b \<and> b \<in> set L \<and> key (mem c ! b) = k
               \<and> Delete c k = Inr (c', True)
               \<and> lruList c' = Some (remove1 b L) \<and> expList c' = Some (remove1 b E)
               \<and> map_of (m c') = (map_of (m c))(k := None)
               \<and> Len c' = Len c - 1
               \<and> (\<forall>now. Get c' now k = Inr (c', [], False)))"
  proof (cases "map_of (m c) k")
    case None
    then show ?thesis by (simp add: Delete_absent)
  next
    case (Some p)
    from Delete_reach[OF c(2) Some] obtain b c' where b:
      "p = Some b" "b \<in> set L" "key (mem c ! b) = k" "Delete c k = Inr (c', True)"
      "cache_inv c' (remove1 b L) (remove1 b E)"
      "map_of (m c') = (map_of (m c))(k := None)" "Len c' = Len c - 1"
      "\<forall>now. Get c' now k = Inr (c', [], False)"
      by blast
    have w': "well_formed c' (remove1 b L) (remove1 b E)"
      using b(5) by (simp add: cache_inv_def)
    show ?thesis
      using Some b well_formed_walk[OF w'] by auto
  qed
  then show ?thesis
    using c(1) well_formed_walk[OF w] by blast
qed

theorem C8_delete_witness:
  "\<exists>c rs c'. session 2 7 [CallPut 5 5 ''a'' ''1'', CallPut 6 6 ''b'' ''2''] = Inr (c, rs)
     \<and> expired_at (mem c) 2 100
     \<and> Delete c ''a'' = Inr (c', True) \<and> Len c = 2 \<and> Len c' = 1
     \<and> lruList c' = Some [3] \<and> expList c' = Some [3]
     \<and> Get c' 100 ''a'' = Inr (c', [], False)"
proof -
  let ?calls = "[CallPut 5 5 ''a'' ''1'', CallPut 6 6 ''b'' ''2'']"
  let ?c = "fst (projr (session 2 7 ?calls))"
  have z: "(0::int) \<le> 2" "(0::int) \<le> 7"
    by simp_all
  from C8_delete[OF z, of ?calls "''a''"] obtain c rs L E where a:
    "session 2 7 ?calls = Inr (c, rs)" "lruList c = Some L" "expList c = Some E"
    "case map_of (m c) ''a'' of
           None \<Rightarrow> Delete c ''a'' = Inr (c, False)
         | Some p \<Rightarrow>
            (\<exists>b c'. p = Some b \<and> b \<in> set L \<and> key (mem c ! b) = ''a''
               \<and> Delete c ''a'' = Inr (c', True)
               \<and> lruList c' = Some (remove1 b L) \<and> expList c' = Some (remove1 b E)
               \<and> map_of (m c') = (map_of (m c))(''a'' := None)
               \<and> Len c' = Len c - 1
               \<and> (\<forall>now. Get c' now ''a'' = Inr (c', [], False)))"
    by blast
  have c: "c = ?c"
    using a(1) by simp
  have ev: "map_of (m ?c) ''a'' = Some (Some 2)"
    "lruList ?c = Some [3, 2]" "expList ?c = Some [3, 2]" "Len ?c = 2"
    "expired_at (mem ?c) 2 100"
    by code_simp+
  have L: "L = [3, 2]" "E = [3, 2]"
    using a(2,3) ev(2,3) unfolding c by simp_all
  have "\<exists>c'. Delete c ''a'' = Inr (c', True)
               \<and> lruList c' = Some (remove1 2 L) \<and> expList c' = Some (remove1 2 E)
               \<and> Len c' = Len c - 1
               \<and> (\<forall>now. Get c' now ''a'' = Inr (c', [], False))"
    using a(4) unfolding c ev(1) by simp blast
  then obtain c' where c': "Delete c ''a'' = Inr (c', True)"
     "lruList c' = Some (remove1 2 L)" "expList c' = Some (remove1 2 E)"
     "Len c' = Len c - 1" "\<forall>now. Get c' now ''a'' = Inr (c', [], False)"
    by blast
  have "Len c = 2" "expired_at (mem c) 2 100"
    using ev(4,5) unfolding c by simp_all
  then show ?thesis
    using a(1) c' L by (intro exI[of _ c] exI[of _ rs] exI[of _ c']) simp
qed

text \<open>
  C2. In a state that a sequence of public operations reaches, the number of entries is
  at most \<open>maxSize\<close>, and a \<^verbatim>\<open>Put\<close> adds to it only when the index does not hold the key;
  so a \<^verbatim>\<open>Put\<close> brings the count above \<open>maxSize > 0\<close> exactly when the key is new and
  \<^verbatim>\<open>Len\<close> is \<open>maxSize\<close>. Such a \<^verbatim>\<open>Put\<close> returns with exactly one old entry taken out of both
  lists and out of the index, and the new entry at the head of both: if \<^verbatim>\<open>IsExpired\<close> holds
  of the tail-most entry of the age list (at the time \<open>now'\<close> at which \<^verbatim>\<open>trim\<close> reads the
  clock) that entry is the one, wherever it stands in the recency list; otherwise it is the
  tail-most entry of the recency list.
\<close>

theorem C2_trim_evicts_one:
  assumes s: "session maxSize0 ttl0 calls = Inr (c, rs)"
    and L: "lruList c = Some L" and E: "expList c = Some E"
    and pos: "0 < maxSize0"
    and k: "map_of (m c) k = None" and full: "Len c = maxSize0"
  shows "\<exists>c' x. Put c now now' k v = Inr c' \<and> L \<noteq> [] \<and> E \<noteq> []
     \<and> IsExpired (mem c) (Some (last E)) now' = Inr x
     \<and> (if x then last E else last L) \<in> set L
     \<and> lruList c' = Some (length (mem c) # remove1 (if x then last E else last L) L)
     \<and> expList c' = Some (length (mem c) # remove1 (if x then last E else last L) E)
     \<and> map_of (m c') = ((map_of (m c))(k \<mapsto> Some (length (mem c))))
           (key (mem c ! (if x then last E else last L)) := None)
     \<and> Len c' = maxSize0"
proof -
  have i: "cache_inv c L E" and ms: "maxSize c = maxSize0"
    using reach_lists[OF s L E] by simp_all
  have cond: "0 < maxSize c \<and> Len c = maxSize c"
    using pos full ms by simp
  let ?a = "length (mem c)"
  let ?vic = "victim (mem c) L E now'"
  from Put_fresh[OF i k, of now now' v] obtain c' where c':
    "Put c now now' k v = Inr c'" "L \<noteq> []" "E \<noteq> []" "?vic \<in> set L"
    "cache_inv c' (?a # remove1 ?vic L) (?a # remove1 ?vic E)"
    "map_of (m c') = ((map_of (m c))(k \<mapsto> Some ?a))(key (mem c ! ?vic) := None)"
    "Len c' = Len c"
    using cond by auto
  have "set E = set L"
    using i by (simp add: cache_inv_def well_formed_def lists_ok_def)
  then have "last E \<in> set L"
    using c'(3) last_in_set by blast
  then have "last E < length (mem c)"
    using well_formed_lt[of c L E] i by (simp add: cache_inv_def)
  then have x: "IsExpired (mem c) (Some (last E)) now' = Inr (expired_at (mem c) (last E) now')"
    by (rule IsExpired_Some)
  have v: "?vic = (if expired_at (mem c) (last E) now' then last E else last L)"
    by (simp add: victim_def)
  show ?thesis
    using c'(1,2,3,6,7) c'(4)[unfolded v] inv_lists[OF c'(5)] x full unfolding v
    by (intro exI[of _ c'] exI[of _ "expired_at (mem c) (last E) now'"]) simp
qed

theorem C2_trim_evicts_one_witness:
  "\<exists>c rs c'. session 2 7 [CallPut 5 5 ''a'' ''1'', CallPut 6 6 ''b'' ''2'', CallGet 7 ''a'']
        = Inr (c, rs)
     \<and> lruList c = Some [2, 3] \<and> expList c = Some [3, 2]
     \<and> IsExpired (mem c) (Some 2) 100 = Inr True
     \<and> Put c 8 100 ''c'' ''3'' = Inr c'
     \<and> lruList c' = Some [4, 3] \<and> expList c' = Some [4, 3] \<and> Len c' = 2"
proof -
  let ?calls = "[CallPut 5 5 ''a'' ''1'', CallPut 6 6 ''b'' ''2'', CallGet 7 ''a'']"
  let ?c = "fst (projr (session 2 7 ?calls))"
  let ?rs = "snd (projr (session 2 7 ?calls))"
  have h: "session 2 7 ?calls = Inr (?c, ?rs)"
    by code_simp
  have ev: "lruList ?c = Some [2, 3]" "expList ?c = Some [3, 2]" "map_of (m ?c) ''c'' = None"
    "Len ?c = 2" "IsExpired (mem ?c) (Some 2) 100 = Inr True" "length (mem ?c) = 4"
    by code_simp+
  have p: "(0::int) < 2" by simp
  from C2_trim_evicts_one[OF h ev(1) ev(2) p ev(3) ev(4), of 8 100 "''3''"]
  obtain c' x where c': "Put ?c 8 100 ''c'' ''3'' = Inr c'"
     "IsExpired (mem ?c) (Some (last [3, 2])) 100 = Inr x"
     "lruList c' = Some (length (mem ?c) # remove1 (if x then last [3, 2] else last [2, 3]) [2, 3])"
     "expList c' = Some (length (mem ?c) # remove1 (if x then last [3, 2] else last [2, 3]) [3, 2])"
     "Len c' = 2"
    by blast
  have x: "x"
    using c'(2) ev(5) by simp
  show ?thesis
    using h ev(1,2,5) c'(1,5) c'(3,4)[unfolded ev(6)] x
    by (intro exI[of _ ?c] exI[of _ ?rs] exI[of _ c']) simp
qed

text \<open>
  C5. \<^verbatim>\<open>Put\<close> on a key that the index holds, in a state that a sequence of public
  operations reaches: the old entry \<open>b\<close> is gone from both lists, a newly allocated entry
  (its address is not one of the listed ones) stands at the head of both, the index maps
  the key to the new entry, the new entry carries the key and the new value, a \<^verbatim>\<open>Get\<close>
  returns that value, and \<^verbatim>\<open>Len\<close> is what it was.
\<close>

theorem C5_put_replaces:
  assumes s: "session maxSize0 ttl0 calls = Inr (c, rs)"
    and L: "lruList c = Some L" and E: "expList c = Some E"
    and k: "map_of (m c) k = Some p"
  shows "\<exists>b c' c''. p = Some b \<and> b \<in> set L \<and> length (mem c) \<notin> set L
     \<and> Put c now now' k v = Inr c'
     \<and> lruList c' = Some (length (mem c) # remove1 b L)
     \<and> expList c' = Some (length (mem c) # remove1 b E)
     \<and> map_of (m c') = (map_of (m c))(k \<mapsto> Some (length (mem c)))
     \<and> key (mem c' ! length (mem c)) = k \<and> val (mem c' ! length (mem c)) = v
     \<and> Len c' = Len c
     \<and> Get c' now k = Inr (c'', v, True)"
proof -
  have i: "cache_inv c L E"
    using reach_lists[OF s L E] by simp
  let ?a = "length (mem c)"
  from Put_replace[OF i k, of now now' v] obtain b c' where c':
    "p = Some b" "b \<in> set L" "Put c now now' k v = Inr c'"
    "cache_inv c' (?a # remove1 b L) (?a # remove1 b E)"
    "map_of (m c') = (map_of (m c))(k \<mapsto> Some ?a)"
    "key (mem c' ! ?a) = k" "val (mem c' ! ?a) = v"
    "expiry (mem c' ! ?a) = (if ttl c > 0 then now + nat (ttl c) else 0)"
    "Len c' = Len c"
    by blast
  have w': "well_formed c' (?a # remove1 b L) (?a # remove1 b E)"
    using c'(4) by (simp add: cache_inv_def)
  have k': "map_of (m c') k = Some (Some ?a)"
    by (simp add: c'(5))
  have nx: "\<not> expired_at (mem c') ?a now"
    by (simp add: expired_at_def c'(8))
  from Get_live[OF w' k' nx] obtain c'' where "Get c' now k = Inr (c'', val (mem c' ! ?a), True)"
    by blast
  then show ?thesis
    using c'(1,2,3,5,6,7,9) inv_lists[OF c'(4)] inv_fresh[OF i]
    by (intro exI[of _ b] exI[of _ c'] exI[of _ c'']) simp
qed

theorem C5_put_replaces_witness:
  "\<exists>c rs c' c''. session 2 7 [CallPut 5 5 ''a'' ''1'', CallPut 6 6 ''b'' ''2''] = Inr (c, rs)
     \<and> lruList c = Some [3, 2] \<and> expList c = Some [3, 2]
     \<and> map_of (m c) ''a'' = Some (Some 2) \<and> Len c = 2
     \<and> Put c 8 9 ''a'' ''new'' = Inr c'
     \<and> lruList c' = Some [4, 3] \<and> expList c' = Some [4, 3]
     \<and> map_of (m c') ''a'' = Some (Some 4) \<and> val (mem c' ! 4) = ''new'' \<and> Len c' = 2
     \<and> Get c' 8 ''a'' = Inr (c'', ''new'', True)"
proof -
  let ?calls = "[CallPut 5 5 ''a'' ''1'', CallPut 6 6 ''b'' ''2'']"
  let ?c = "fst (projr (session 2 7 ?calls))"
  let ?rs = "snd (projr (session 2 7 ?calls))"
  have h: "session 2 7 ?calls = Inr (?c, ?rs)"
    by code_simp
  have ev: "lruList ?c = Some [3, 2]" "expList ?c = Some [3, 2]"
    "map_of (m ?c) ''a'' = Some (Some 2)" "Len ?c = 2" "length (mem ?c) = 4"
    by code_simp+
  from C5_put_replaces[OF h ev(1) ev(2) ev(3), of 8 9 "''new''"]
  obtain c' c'' where c': "Put ?c 8 9 ''a'' ''new'' = Inr c'"
     "lruList c' = Some (length (mem ?c) # remove1 2 [3, 2])"
     "expList c' = Some (length (mem ?c) # remove1 2 [3, 2])"
     "map_of (m c') = (map_of (m ?c))(''a'' \<mapsto> Some (length (mem ?c)))"
     "val (mem c' ! length (mem ?c)) = ''new''" "Len c' = Len ?c"
     "Get c' 8 ''a'' = Inr (c'', ''new'', True)"
    by blast
  show ?thesis
    using h ev(1,2,3,4) c'(1,7) c'(2,3,4,5,6)[unfolded ev(5)] ev(4)
    by (intro exI[of _ ?c] exI[of _ ?rs] exI[of _ c'] exI[of _ c'']) simp
qed

text \<open>
  C9. \<^verbatim>\<open>New\<close> fails, returning a panic and no cache, exactly when \<open>maxSize\<close> or \<open>ttl\<close> is
  negative. With \<open>maxSize = 0\<close>, in every state that a sequence of public operations
  reaches, a \<^verbatim>\<open>Put\<close> only adds or replaces the entry of its own key: every other key keeps
  its entry, and \<^verbatim>\<open>Len\<close> grows by one for a new key. With \<open>ttl = 0\<close>, in every such state,
  a \<^verbatim>\<open>Get\<close> of a key that the index holds finds it and returns its value, whatever the
  reading \<open>t\<close> of the clock.
\<close>

theorem C9_construction_and_zero_limits:
  "((\<exists>e. New maxSize0 ttl0 = Inl e) \<longleftrightarrow> maxSize0 < 0 \<or> ttl0 < 0)
   \<and> (session 0 ttl1 calls1 = Inr (c1, rs1) \<longrightarrow>
        (\<exists>c'. Put c1 now now' k v = Inr c'
           \<and> map_of (m c') = (map_of (m c1))(k \<mapsto> Some (length (mem c1)))
           \<and> Len c' = (if map_of (m c1) k = None then Len c1 + 1 else Len c1)))
   \<and> (session maxSize2 0 calls2 = Inr (c2, rs2) \<and> map_of (m c2) k2 = Some p \<longrightarrow>
        (\<exists>b c'. p = Some b \<and> Get c2 t k2 = Inr (c', val (mem c2 ! b), True)))"
proof (intro conjI impI)
  show "(\<exists>e. New maxSize0 ttl0 = Inl e) \<longleftrightarrow> maxSize0 < 0 \<or> ttl0 < 0"
    by (auto simp: New_def)
next
  assume s: "session 0 ttl1 calls1 = Inr (c1, rs1)"
  from session_reach[OF s] obtain L E where i: "cache_inv c1 L E" "maxSize c1 = 0"
    by blast
  show "\<exists>c'. Put c1 now now' k v = Inr c'
           \<and> map_of (m c') = (map_of (m c1))(k \<mapsto> Some (length (mem c1)))
           \<and> Len c' = (if map_of (m c1) k = None then Len c1 + 1 else Len c1)"
  proof (cases "map_of (m c1) k")
    case None
    from Put_fresh[OF i(1) None, of now now' v] obtain c' where
      "Put c1 now now' k v = Inr c'"
      "map_of (m c') = (map_of (m c1))(k \<mapsto> Some (length (mem c1)))" "Len c' = Len c1 + 1"
      using i(2) by auto
    then show ?thesis
      using None by (intro exI[of _ c']) simp
  next
    case (Some q)
    from Put_replace[OF i(1) Some, of now now' v] obtain c' where
      "Put c1 now now' k v = Inr c'"
      "map_of (m c') = (map_of (m c1))(k \<mapsto> Some (length (mem c1)))" "Len c' = Len c1"
      by blast
    then show ?thesis
      using Some by (intro exI[of _ c']) simp
  qed
next
  assume a: "session maxSize2 0 calls2 = Inr (c2, rs2) \<and> map_of (m c2) k2 = Some p"
  from session_reach[of maxSize2 0 calls2 c2 rs2] a obtain L E where
    i: "cache_inv c2 L E" "ttl c2 = 0"
    by blast
  have w: "well_formed c2 L E"
    using i(1) by (simp add: cache_inv_def)
  from well_formed_index_Some[OF w, of k2 p] a obtain b where b: "p = Some b" "b \<in> set L"
    by blast
  have k: "map_of (m c2) k2 = Some (Some b)"
    using a b by simp
  from Get_live[OF w k inv_not_expired[OF i(1) i(2) b(2)], of t] obtain c' where
    "Get c2 t k2 = Inr (c', val (mem c2 ! b), True)"
    by blast
  then show "\<exists>b c'. p = Some b \<and> Get c2 t k2 = Inr (c', val (mem c2 ! b), True)"
    using b(1) by blast
qed

theorem C9_construction_and_zero_limits_witness:
  "(\<exists>e. New (- 1) 5 = Inl e) \<and> (\<exists>e. New 5 (- 1) = Inl e) \<and> (\<exists>c. New 0 0 = Inr c)
   \<and> (\<exists>c rs c' c''. session 0 0 [CallPut 5 5 ''a'' ''1''] = Inr (c, rs)
        \<and> Put c 6 6 ''b'' ''2'' = Inr c'
        \<and> map_of (m c') = (map_of (m c))(''b'' \<mapsto> Some (length (mem c)))
        \<and> Len c' = Len c + 1
        \<and> Get c 1000000 ''a'' = Inr (c'', ''1'', True))"
proof -
  let ?calls = "[CallPut 5 5 ''a'' ''1'']"
  let ?c = "fst (projr (session 0 0 ?calls))"
  let ?rs = "snd (projr (session 0 0 ?calls))"
  have h: "session 0 0 ?calls = Inr (?c, ?rs)"
    by code_simp
  have ev: "map_of (m ?c) ''a'' = Some (Some 2)" "map_of (m ?c) ''b'' = None"
    "val (mem ?c ! 2) = ''1''"
    by code_simp+
  have t1: "(\<exists>e. New (- 1) 5 = Inl e)"
    using C9_construction_and_zero_limits[of "- 1" 5] by simp
  have t2: "(\<exists>e. New 5 (- 1) = Inl e)"
    using C9_construction_and_zero_limits[of 5 "- 1"] by simp
  have "\<not> (\<exists>e. New 0 0 = Inl e)"
    using C9_construction_and_zero_limits[of 0 0] by simp
  then have t3: "\<exists>c. New 0 0 = Inr c"
    by (cases "New 0 0") auto
  from C9_construction_and_zero_limits[of 0 0 0 ?calls ?c ?rs 6 6 "''b''" "''2''"
      0 ?calls ?c ?rs "''a''" "Some 2" 1000000] h ev
  obtain c' c'' where "Put ?c 6 6 ''b'' ''2'' = Inr c'"
     "map_of (m c') = (map_of (m ?c))(''b'' \<mapsto> Some (length (mem ?c)))"
     "Len c' = Len ?c + 1" "Get ?c 1000000 ''a'' = Inr (c'', ''1'', True)"
    by auto
  then have "\<exists>c rs c' c''. session 0 0 [CallPut 5 5 ''a'' ''1''] = Inr (c, rs)
        \<and> Put c 6 6 ''b'' ''2'' = Inr c'
        \<and> map_of (m c') = (map_of (m c))(''b'' \<mapsto> Some (length (mem c)))
        \<and> Len c' = Len c + 1
        \<and> Get c 1000000 ''a'' = Inr (c'', ''1'', True)"
    using h by (intro exI[of _ ?c] exI[of _ ?rs] exI[of _ c'] exI[of _ c'']) simp
  then show ?thesis
    using t1 t2 t3 by (simp only: simp_thms)
qed

text \<open>
  C6, as amended. In a state that a sequence of public operations reaches, a \<^verbatim>\<open>Get\<close> of
  a key whose entry is expired (\<^verbatim>\<open>IsExpired\<close>: the expiry is set and is before the reading
  \<open>now\<close> of the clock) takes the entry out of both lists and out of the index, lowers
  \<^verbatim>\<open>Len\<close> by 1 and reports not-found. An entry \<open>a\<close> that one public operation removes
  is removed in one of these ways only: by a \<^verbatim>\<open>Get\<close> of its key that finds it expired; by
  the \<^verbatim>\<open>trim\<close> at the end of a \<^verbatim>\<open>Put\<close> of a new key into a full cache, as the entry that
  \<^verbatim>\<open>trim\<close> chooses; or because the caller names its key, in a \<^verbatim>\<open>Delete\<close> or in a \<^verbatim>\<open>Put\<close> that
  replaces it. The last two never look at the expiry, so \<^verbatim>\<open>Get\<close> and \<^verbatim>\<open>trim\<close> are the only
  places that reclaim an entry because it is expired; they are not the only places where
  an expired entry is reclaimed.
\<close>

theorem C6_expired_get_purges:
  assumes s: "session maxSize0 ttl0 calls = Inr (c, rs)"
    and L: "lruList c = Some L" and E: "expList c = Some E"
  shows "(map_of (m c) k = Some p \<and> IsExpired (mem c) p now = Inr True \<longrightarrow>
           (\<exists>b c'. p = Some b \<and> b \<in> set L \<and> Get c now k = Inr (c', [], False)
              \<and> lruList c' = Some (remove1 b L) \<and> expList c' = Some (remove1 b E)
              \<and> map_of (m c') = (map_of (m c))(k := None) \<and> Len c' = Len c - 1))
       \<and> (exec c x = Inr (c1, r) \<and> lruList c1 = Some L1 \<and> a \<in> set L \<and> a \<notin> set L1 \<longrightarrow>
           (case x of
              CallGet t k' \<Rightarrow> k' = key (mem c ! a) \<and> IsExpired (mem c) (Some a) t = Inr True
            | CallDelete k' \<Rightarrow> k' = key (mem c ! a)
            | CallPut t t' k' v \<Rightarrow> k' = key (mem c ! a)
                \<or> (map_of (m c) k' = None \<and> 0 < maxSize c \<and> Len c = maxSize c \<and> E \<noteq> []
                    \<and> a = (if IsExpired (mem c) (Some (last E)) t' = Inr True
                           then last E else last L))
            | CallLen \<Rightarrow> False))"
proof (intro conjI impI)
  have i: "cache_inv c L E"
    using reach_lists[OF s L E] by simp
  {
    assume a: "map_of (m c) k = Some p \<and> IsExpired (mem c) p now = Inr True"
    from Get_reach_expired[OF i, of k p now] a obtain b c' where c':
      "p = Some b" "b \<in> set L" "Get c now k = Inr (c', [], False)"
      "cache_inv c' (remove1 b L) (remove1 b E)"
      "map_of (m c') = (map_of (m c))(k := None)" "Len c' = Len c - 1"
      by blast
    show "\<exists>b c'. p = Some b \<and> b \<in> set L \<and> Get c now k = Inr (c', [], False)
              \<and> lruList c' = Some (remove1 b L) \<and> expList c' = Some (remove1 b E)
              \<and> map_of (m c') = (map_of (m c))(k := None) \<and> Len c' = Len c - 1"
      using c'(1,2,3,5,6) inv_lists[OF c'(4)] by blast
  }
  {
    assume a: "exec c x = Inr (c1, r) \<and> lruList c1 = Some L1 \<and> a \<in> set L \<and> a \<notin> set L1"
    show "case x of
              CallGet t k' \<Rightarrow> k' = key (mem c ! a) \<and> IsExpired (mem c) (Some a) t = Inr True
            | CallDelete k' \<Rightarrow> k' = key (mem c ! a)
            | CallPut t t' k' v \<Rightarrow> k' = key (mem c ! a)
                \<or> (map_of (m c) k' = None \<and> 0 < maxSize c \<and> Len c = maxSize c \<and> E \<noteq> []
                    \<and> a = (if IsExpired (mem c) (Some (last E)) t' = Inr True
                           then last E else last L))
            | CallLen \<Rightarrow> False"
      using step_removes[OF i, of x c1 r L1 a] a by blast
  }
qed

theorem C6_expired_get_purges_witness:
  "\<exists>c rs c' c1. session 0 1 [CallPut 1 1 ''a'' ''1''] = Inr (c, rs)
     \<and> lruList c = Some [2] \<and> expList c = Some [2] \<and> Len c = 1
     \<and> IsExpired (mem c) (Some 2) 100 = Inr True
     \<and> Get c 100 ''a'' = Inr (c', [], False)
     \<and> lruList c' = Some [] \<and> expList c' = Some [] \<and> map_of (m c') ''a'' = None \<and> Len c' = 0
     \<and> exec c (CallDelete ''a'') = Inr (c1, DeleteReply True) \<and> lruList c1 = Some []
     \<and> ''a'' = key (mem c ! 2)"
proof -
  let ?calls = "[CallPut 1 1 ''a'' ''1'']"
  let ?c = "fst (projr (session 0 1 ?calls))"
  let ?rs = "snd (projr (session 0 1 ?calls))"
  let ?c1 = "fst (projr (exec ?c (CallDelete ''a'')))"
  have h: "session 0 1 ?calls = Inr (?c, ?rs)"
    by code_simp
  have ev: "lruList ?c = Some [2]" "expList ?c = Some [2]"
    "map_of (m ?c) ''a'' = Some (Some 2)" "IsExpired (mem ?c) (Some 2) 100 = Inr True"
    "Len ?c = 1"
    by code_simp+
  have d: "exec ?c (CallDelete ''a'') = Inr (?c1, DeleteReply True)" "lruList ?c1 = Some []"
    by code_simp+
  note T = C6_expired_get_purges[OF h ev(1) ev(2), of "''a''" "Some 2" 100 "CallDelete ''a''" ?c1
        "DeleteReply True" "[]" 2]
  have A: "map_of (m ?c) ''a'' = Some (Some 2) \<and> IsExpired (mem ?c) (Some 2) 100 = Inr True"
    using ev(3,4) by (rule conjI)
  from T[THEN conjunct1, THEN mp, OF A]
  obtain b c' where c0: "Some (2::nat) = Some b" "Get ?c 100 ''a'' = Inr (c', [], False)"
     "lruList c' = Some (remove1 b [2])" "expList c' = Some (remove1 b [2])"
     "map_of (m c') = (map_of (m ?c))(''a'' := None)" "Len c' = Len ?c - 1"
    by blast
  have b: "b = 2"
    using c0(1) by simp
  have c': "Get ?c 100 ''a'' = Inr (c', [], False)"
     "lruList c' = Some []" "expList c' = Some []"
     "map_of (m c') ''a'' = None" "Len c' = 0"
    using c0 ev(5) unfolding b by simp_all
  have B: "exec ?c (CallDelete ''a'') = Inr (?c1, DeleteReply True) \<and> lruList ?c1 = Some []
            \<and> (2::nat) \<in> set [2] \<and> (2::nat) \<notin> set []"
    using d by simp
  have k: "''a'' = key (mem ?c ! 2)"
    using T[THEN conjunct2, THEN mp, OF B] by simp
  show ?thesis
    using h ev c' d k
    by (intro exI[of _ ?c] exI[of _ ?rs] exI[of _ c'] exI[of _ ?c1]) simp
qed

text \<open>
  The claim C6 as it is written fails: with a ttl of 1 the entry put at time 1 is expired
  at time 100 (a \<^verbatim>\<open>Get\<close> then purges it and reports not-found), and a \<^verbatim>\<open>Delete\<close> in its
  place, which reads no clock, reclaims the same entry: it returns true, \<^verbatim>\<open>Len\<close> falls
  from 1 to 0, and both lists and the index are empty afterwards.
\<close>

theorem C6_delete_reclaims_expired_counterexample:
  "map_sum id snd (session 0 1 [CallPut 1 1 ''a'' ''1'', CallLen, CallGet 100 ''a'', CallLen])
      = Inr [PutDone, LenReply 1, GetReply [] False, LenReply 0]
   \<and> map_sum id snd (session 0 1 [CallPut 1 1 ''a'' ''1'', CallLen, CallDelete ''a'', CallLen])
      = Inr [PutDone, LenReply 1, DeleteReply True, LenReply 0]
   \<and> map_sum id (lruList \<circ> fst) (session 0 1 [CallPut 1 1 ''a'' ''1'']) = Inr (Some [2])
   \<and> map_sum id (lruList \<circ> fst) (session 0 1 [CallPut 1 1 ''a'' ''1'', CallDelete ''a''])
      = Inr (Some [])
   \<and> map_sum id (expList \<circ> fst) (session 0 1 [CallPut 1 1 ''a'' ''1'', CallDelete ''a''])
      = Inr (Some [])
   \<and> map_sum id (m \<circ> fst) (session 0 1 [CallPut 1 1 ''a'' ''1'', CallDelete ''a'']) = Inr []"
  by code_simp

text \<open>
  C7. A cache with \<open>ttl > 0\<close>, after any sequence of public operations whose \<^verbatim>\<open>Put\<close>s all
  read the clock at \<open>T\<close> or before; then every \<^verbatim>\<open>Get\<close> that reads the clock after
  \<open>T + ttl\<close>, that is once the ttl has elapsed past every insertion, reports not-found,
  whatever its key; and when these \<^verbatim>\<open>Get\<close>s have asked for every key of the index, \<^verbatim>\<open>Len\<close>
  is 0 and both lists are empty. (\<^verbatim>\<open>Len\<close> counts the entries of the index, so it is each
  entry's own \<^verbatim>\<open>Get\<close> that brings it down.)
\<close>

theorem C7_full_expiry:
  assumes s: "session maxSize0 ttl0 calls = Inr (c, rs)"
    and ttl: "0 < ttl0"
    and ins: "list_all (stamped_by T) calls"
    and late: "list_all (\<lambda>g. T + nat ttl0 < fst g) gets"
  shows "\<exists>c'. run c (map (\<lambda>g. CallGet (fst g) (snd g)) gets)
            = Inr (c', map (\<lambda>g. GetReply [] False) gets)
       \<and> (fst ` set (m c) \<subseteq> snd ` set gets \<longrightarrow>
            Len c' = 0 \<and> lruList c' = Some [] \<and> expList c' = Some [])"
proof -
  obtain c0 where c0: "New maxSize0 ttl0 = Inr c0" "run c0 calls = Inr (c, rs)"
    using s by (auto simp: session_def bindE_eq_Inr)
  have i0: "cache_inv c0 [] []" "ttl c0 = ttl0"
    using New_inv[OF c0(1)] by simp_all
  from session_reach[OF s] obtain L E where i: "cache_inv c L E" "ttl c = ttl0"
    by blast
  have bd: "\<forall>a\<in>set L. expiry (mem c ! a) \<le> T + nat ttl0"
    using run_bound[OF i0(1) _ ins c0(2) i(1)] i0(2) by simp
  have t: "0 < ttl c"
    using ttl i(2) by simp
  from gets_purge[OF i(1) t bd late] obtain c' L' E' where c':
    "run c (map (\<lambda>g. CallGet (fst g) (snd g)) gets) = Inr (c', map (\<lambda>g. GetReply [] False) gets)"
    "cache_inv c' L' E'"
    "dom (map_of (m c')) = dom (map_of (m c)) - snd ` set gets"
    by blast
  have "fst ` set (m c) \<subseteq> snd ` set gets \<longrightarrow>
            Len c' = 0 \<and> lruList c' = Some [] \<and> expList c' = Some []"
  proof
    assume a: "fst ` set (m c) \<subseteq> snd ` set gets"
    have "dom (map_of (m c')) = {}"
      using c'(3) a by (simp add: dom_map_of_conv_image_fst)
    then have e: "m c' = []"
      by (simp add: dom_map_of_conv_image_fst)
    then have l0: "Len c' = 0"
      by (simp add: Len_def)
    then have "L' = []"
      using inv_len[OF c'(2)] by simp
    moreover have "set E' = set L'"
      using c'(2) by (simp add: cache_inv_def well_formed_def lists_ok_def)
    ultimately have "L' = []" "E' = []"
      by simp_all
    then show "Len c' = 0 \<and> lruList c' = Some [] \<and> expList c' = Some []"
      using l0 inv_lists[OF c'(2)] by simp
  qed
  then show ?thesis
    using c'(1) by blast
qed

theorem C7_full_expiry_witness:
  "\<exists>c rs c'. session 3 10 [CallPut 1 1 ''a'' ''1'', CallPut 2 2 ''b'' ''2'', CallGet 3 ''a'']
        = Inr (c, rs)
     \<and> Len c = 2
     \<and> run c [CallGet 13 ''a'', CallGet 14 ''b'', CallGet 15 ''z'']
          = Inr (c', [GetReply [] False, GetReply [] False, GetReply [] False])
     \<and> Len c' = 0 \<and> lruList c' = Some [] \<and> expList c' = Some []"
proof -
  let ?calls = "[CallPut 1 1 ''a'' ''1'', CallPut 2 2 ''b'' ''2'', CallGet 3 ''a'']"
  let ?gets = "[(13::nat, ''a''), (14, ''b''), (15, ''z'')]"
  let ?c = "fst (projr (session 3 10 ?calls))"
  let ?rs = "snd (projr (session 3 10 ?calls))"
  have h: "session 3 10 ?calls = Inr (?c, ?rs)"
    by code_simp
  have ev: "Len ?c = 2" "fst ` set (m ?c) \<subseteq> snd ` set ?gets"
    by code_simp+
  have p: "(0::int) < 10"
    by simp
  have i: "list_all (stamped_by 2) ?calls"
    by simp
  have l: "list_all (\<lambda>g. 2 + nat 10 < fst g) ?gets"
    by simp
  from C7_full_expiry[OF h p i l]
  obtain c' where r: "run ?c (map (\<lambda>g. CallGet (fst g) (snd g)) ?gets)
            = Inr (c', map (\<lambda>g. GetReply [] False) ?gets)"
     and z: "fst ` set (m ?c) \<subseteq> snd ` set ?gets \<longrightarrow>
            Len c' = 0 \<and> lruList c' = Some [] \<and> expList c' = Some []"
    by (elim exE conjE)
  have "Len c' = 0 \<and> lruList c' = Some [] \<and> expList c' = Some []"
    using z ev(2) by (rule mp)
  then show ?thesis
    using h ev(1) r by (intro exI[of _ ?c] exI[of _ ?rs] exI[of _ c']) simp
qed

end
